theory Spec2Isabelle
  imports Main
begin

section \<open>Data model of the sync v3 engine\<close>

text \<open>
  The types follow the TypeScript interfaces of the Sync3 source file, read as
  JavaScript reads them at run time. A number is a double; the model holds the
  integer-valued ones, as an \<open>int\<close> that stands for the double of that value, and
  rounds where the source computes (\<open>dbl\<close> below). A field that the source guards
  with \<open>=== undefined\<close> is absent, \<open>null\<close> or present: \<open>null\<close> passes the guard.
\<close>

datatype SyncStatus = InitialSync | Syncing | Stopped

datatype 'a field = Absent | Null | Val 'a

record RoomResponse =
  room_id :: string
  name :: string
  required_state :: "string list"
  timeline :: "string list"
  notification_count :: int
  highlight_count :: int

text \<open>
  An operation of the response. \<open>op_rooms\<close> is a JavaScript array: an element may be
  missing (a hole, or \<open>null\<close>), which is \<open>None\<close> in the list.
\<close>

record Op =
  op_list :: int
  op_op :: string
  op_range :: "int list field"
  op_rooms :: "RoomResponse option list field"
  op_index :: "int field"
  op_room :: "RoomResponse field"

record JsError =
  err_name :: string
  err_message :: string

definition TypeError :: JsError where
  "TypeError = \<lparr>err_name = ''TypeError'', err_message = []\<rparr>"

text \<open>
  The property names of an index map: the decimal form of a number, or \<open>"null"\<close>
  when the index of the operation is \<open>null\<close>. Where the source compares or counts
  with an index, \<open>null\<close> is the number 0.
\<close>

datatype key = Ix int | KNull

fun to_num :: "key \<Rightarrow> int" where
  "to_num (Ix i) = i"
| "to_num KNull = 0"

fun index_key :: "int field \<Rightarrow> key option" where
  "index_key Absent = None"
| "index_key Null = Some KNull"
| "index_key (Val i) = Some (Ix i)"

text \<open>
  The values held by an index map: a room id, or \<open>undefined\<close>, which a shift stores
  when it copies from a position that has no key.
\<close>

datatype jsval = Undefined | Str string

type_synonym IndexToRoomId = "key \<rightharpoonup> jsval"

text \<open>
  Objects live in a store and are named by their address, so that the copy made by
  \<open>processOps\<close> and the map of the engine are two objects. Allocation appends to the
  store: the fresh address is the length of the store.
\<close>

type_synonym addr = nat
type_synonym heap = "IndexToRoomId list"

record Sync3 =
  ranges :: "int list list"
  roomIndexToRoomId :: addr
  status :: SyncStatus

text \<open>The update list holds rooms; an UPDATE whose room is \<open>null\<close> pushes \<open>null\<close>.\<close>

record ProcessOpsResult =
  indexToRoom :: addr
  updates :: "RoomResponse option list"

section \<open>Arithmetic of doubles on integers\<close>

text \<open>
  A double carries 53 significant bits. \<open>excess n\<close> is the number of low bits of
  \<open>n\<close> beyond them, and \<open>dbl i\<close> is the double nearest to the integer \<open>i\<close>, a tie
  going to the even significand. The source computes \<open>j + 1\<close>, \<open>j - 1\<close> and
  \<open>j - startIndex\<close> on doubles: each is \<open>dbl\<close> of the exact result. Up to \<open>2 ^ 53\<close>
  in magnitude nothing is rounded; \<open>dbl (2 ^ 53 + 1)\<close> is \<open>2 ^ 53\<close>, so that \<open>j++\<close>
  no longer advances there.
\<close>

function excess :: "nat \<Rightarrow> nat" where
  "excess n = (if n < 2 ^ 53 then 0 else Suc (excess (n div 2)))"
  by pat_completeness auto
termination
  by (relation "measure id") auto

declare excess.simps [simp del]

definition dbl :: "int \<Rightarrow> int" where
  "dbl i =
     (let n = nat \<bar>i\<bar>; e = excess n; q = n div 2 ^ e; r = n mod 2 ^ e;
          q' = (if 2 * r > 2 ^ e \<or> (2 * r = 2 ^ e \<and> q mod 2 = 1) then q + 1 else q)
      in sgn i * int (q' * 2 ^ e))"

text \<open>The integers on which \<open>+ 1\<close> and \<open>- 1\<close> are exact and change the value.\<close>

definition safe_index :: "int \<Rightarrow> bool" where
  "safe_index i = (- (2 ^ 53) < i \<and> i < 2 ^ 53)"

section \<open>Reading and writing an index map\<close>

fun truthy :: "jsval \<Rightarrow> bool" where
  "truthy Undefined = False"
| "truthy (Str s) = (s \<noteq> [])"

definition obj_get :: "IndexToRoomId \<Rightarrow> key \<Rightarrow> jsval" where
  "obj_get m k = (case m k of None \<Rightarrow> Undefined | Some v \<Rightarrow> v)"

definition load :: "heap \<Rightarrow> addr \<Rightarrow> key \<Rightarrow> jsval" where
  "load h a k = obj_get (h ! a) k"

definition store :: "addr \<Rightarrow> key \<Rightarrow> jsval \<Rightarrow> heap \<Rightarrow> heap" where
  "store a k v h = h[a := (h ! a)(k \<mapsto> v)]"

definition remove :: "addr \<Rightarrow> key \<Rightarrow> heap \<Rightarrow> heap" where
  "remove a k h = h[a := (h ! a)(k := None)]"

text \<open>Reading a JavaScript array: out of range, or at a missing element, nothing is there.\<close>

definition array_get :: "'a option list \<Rightarrow> int \<Rightarrow> 'a option" where
  "array_get xs i = (if 0 \<le> i \<and> nat i < length xs then xs ! nat i else None)"

section \<open>The range tracker\<close>

text \<open>
  A range is a number array \<open>r\<close> read at \<open>r[0]\<close> and \<open>r[1]\<close>; a comparison with a
  missing bound is false.
\<close>

fun range_covers :: "int list \<Rightarrow> int \<Rightarrow> bool" where
  "range_covers (lo # hi # _) i = (lo \<le> i \<and> i \<le> hi)"
| "range_covers _ i = False"

definition indexInRange :: "int list list \<Rightarrow> int \<Rightarrow> bool" where
  "indexInRange rs i =
     foldl (\<lambda>isInRange r. if range_covers r i then True else isInRange) False rs"

section \<open>The op reconciler\<close>

text \<open>
  The loops may run forever, when \<open>j++\<close> or \<open>j--\<close> no longer moves \<open>j\<close>: each is a
  partial function, and \<open>None\<close> is the loop that never returns.

  The loop of SYNC: \<open>for (j = startIndex; j <= range[1]; j++)\<close>, left at the first
  missing room. The state is the store and the update list.
\<close>

partial_function (option) sync_loop ::
  "addr \<Rightarrow> RoomResponse option list \<Rightarrow> int \<Rightarrow> int \<Rightarrow> int
     \<Rightarrow> heap \<times> RoomResponse option list \<Rightarrow> (heap \<times> RoomResponse option list) option" where
  "sync_loop a rms startIndex hi j st =
     (if j \<le> hi then
        (case array_get rms (dbl (j - startIndex)) of
           None \<Rightarrow> Some st
         | Some r \<Rightarrow>
             sync_loop a rms startIndex hi (dbl (j + 1))
               (store a (Ix j) (Str (room_id r)) (fst st), snd st @ [Some r]))
      else Some st)"

text \<open>The loop of INVALIDATE.\<close>

partial_function (option) invalidate_loop :: "addr \<Rightarrow> int \<Rightarrow> int \<Rightarrow> heap \<Rightarrow> heap option" where
  "invalidate_loop a hi j h =
     (if j \<le> hi then invalidate_loop a hi (dbl (j + 1)) (remove a (Ix j) h) else Some h)"

text \<open>
  The two shifts of INSERT. The gap is further down the list:
  \<open>for (j = gapIndex; j > op.index; j--)\<close>; the gap is further up the list:
  \<open>for (j = gapIndex; j < op.index; j++)\<close>. The gap index and the index of the
  operation may be \<open>null\<close>: \<open>j\<close> is a key, compared and counted as a number.
\<close>

partial_function (option) shift_right ::
  "int list list \<Rightarrow> addr \<Rightarrow> key \<Rightarrow> key \<Rightarrow> heap \<Rightarrow> heap option" where
  "shift_right rs a idx j h =
     (if to_num j > to_num idx then
        shift_right rs a idx (Ix (dbl (to_num j - 1)))
          (if indexInRange rs (to_num j)
           then store a j (load h a (Ix (dbl (to_num j - 1)))) h else h)
      else Some h)"

partial_function (option) shift_left ::
  "int list list \<Rightarrow> addr \<Rightarrow> key \<Rightarrow> key \<Rightarrow> heap \<Rightarrow> heap option" where
  "shift_left rs a idx j h =
     (if to_num j < to_num idx then
        shift_left rs a idx (Ix (dbl (to_num j + 1)))
          (if indexInRange rs (to_num j)
           then store a j (load h a (Ix (dbl (to_num j + 1)))) h else h)
      else Some h)"

text \<open>
  The body of the loop over the operations. The state is the store (the copy is at
  address \<open>a\<close>), the update list and the gap index. A step goes on to the next
  operation (also when the source leaves the operation with \<open>continue\<close>), or throws
  with the store as it is then; \<open>None\<close> is the step that never returns.
\<close>

type_synonym ops_state = "heap \<times> RoomResponse option list \<times> key"

datatype step = Next ops_state | Throw JsError heap

text \<open>
  SYNC. A \<open>null\<close> range passes the guard and \<open>op.range[0]\<close> throws; \<open>null\<close> rooms pass
  the guard and \<open>op.rooms[...]\<close> throws when the loop is entered. A range with less
  than two numbers gives a comparison with \<open>undefined\<close>, and the loop is not entered.
\<close>

definition process_sync :: "addr \<Rightarrow> Op \<Rightarrow> ops_state \<Rightarrow> step option" where
  "process_sync a op st =
     (case st of (h, roomUpdates, gapIndex) \<Rightarrow>
        if op_range op = Absent \<or> op_rooms op = Absent then Some (Next st)
        else
          (case op_range op of
             Val (startIndex # hi # _) \<Rightarrow>
               (case op_rooms op of
                  Val rms \<Rightarrow>
                    (case sync_loop a rms startIndex hi startIndex (h, roomUpdates) of
                       None \<Rightarrow> None
                     | Some (h', roomUpdates') \<Rightarrow> Some (Next (h', roomUpdates', gapIndex)))
                | _ \<Rightarrow> if startIndex \<le> hi then Some (Throw TypeError h) else Some (Next st))
           | Val _ \<Rightarrow> Some (Next st)
           | _ \<Rightarrow> Some (Throw TypeError h)))"

definition process_invalidate :: "addr \<Rightarrow> Op \<Rightarrow> ops_state \<Rightarrow> step option" where
  "process_invalidate a op st =
     (case st of (h, roomUpdates, gapIndex) \<Rightarrow>
        (case op_range op of
           Absent \<Rightarrow> Some (Next st)
         | Null \<Rightarrow> Some (Throw TypeError h)
         | Val (startIndex # hi # _) \<Rightarrow>
             (case invalidate_loop a hi startIndex h of
                None \<Rightarrow> None
              | Some h' \<Rightarrow> Some (Next (h', roomUpdates, gapIndex)))
         | Val _ \<Rightarrow> Some (Next st)))"

text \<open>
  INSERT. The last statements, \<open>indexToRoomID[op.index] = op.room.room_id\<close> and the
  push, come after the shift; a \<open>null\<close> room throws there.
\<close>

definition assign_room ::
  "addr \<Rightarrow> key \<Rightarrow> RoomResponse field \<Rightarrow> RoomResponse option list \<Rightarrow> key \<Rightarrow> heap option
     \<Rightarrow> step option" where
  "assign_room a idx rm roomUpdates gapIndex shifted =
     (case shifted of
        None \<Rightarrow> None
      | Some h \<Rightarrow>
          (case rm of
             Val r \<Rightarrow> Some (Next (store a idx (Str (room_id r)) h, roomUpdates @ [Some r], gapIndex))
           | _ \<Rightarrow> Some (Throw TypeError h)))"

definition process_insert :: "int list list \<Rightarrow> addr \<Rightarrow> Op \<Rightarrow> ops_state \<Rightarrow> step option" where
  "process_insert rs a op st =
     (case st of (h, roomUpdates, gapIndex) \<Rightarrow>
        (case index_key (op_index op) of
           None \<Rightarrow> Some (Next st)
         | Some idx \<Rightarrow>
             if op_room op = Absent then Some (Next st)
             else if truthy (load h a idx) then
               (if to_num gapIndex < 0 then Some (Next st)
                else
                  assign_room a idx (op_room op) roomUpdates gapIndex
                    (if to_num gapIndex > to_num idx then shift_right rs a idx gapIndex h
                     else if to_num gapIndex < to_num idx then shift_left rs a idx gapIndex h
                     else Some h))
             else assign_room a idx (op_room op) roomUpdates gapIndex (Some h)))"

definition process_delete :: "addr \<Rightarrow> Op \<Rightarrow> ops_state \<Rightarrow> step option" where
  "process_delete a op st =
     (case st of (h, roomUpdates, gapIndex) \<Rightarrow>
        (case index_key (op_index op) of
           None \<Rightarrow> Some (Next st)
         | Some idx \<Rightarrow> Some (Next (remove a idx h, roomUpdates, idx))))"

definition process_update :: "Op \<Rightarrow> ops_state \<Rightarrow> step option" where
  "process_update op st =
     (case st of (h, roomUpdates, gapIndex) \<Rightarrow>
        if op_index op = Absent \<or> op_room op = Absent then Some (Next st)
        else
          Some (Next (h, roomUpdates @ [case op_room op of Val r \<Rightarrow> Some r | _ \<Rightarrow> None],
                      gapIndex)))"

definition process_op :: "int list list \<Rightarrow> addr \<Rightarrow> Op \<Rightarrow> ops_state \<Rightarrow> step option" where
  "process_op rs a op st =
     (if op_op op = ''SYNC'' then process_sync a op st
      else if op_op op = ''INVALIDATE'' then process_invalidate a op st
      else if op_op op = ''INSERT'' then process_insert rs a op st
      else if op_op op = ''DELETE'' then process_delete a op st
      else if op_op op = ''UPDATE'' then process_update op st
      else Some (Next st))"

fun ops_loop :: "int list list \<Rightarrow> addr \<Rightarrow> Op list \<Rightarrow> ops_state \<Rightarrow> step option" where
  "ops_loop rs a [] st = Some (Next st)"
| "ops_loop rs a (op # ops) st =
     (case process_op rs a op st of
        None \<Rightarrow> None
      | Some (Throw err h) \<Rightarrow> Some (Throw err h)
      | Some (Next st') \<Rightarrow> ops_loop rs a ops st')"

text \<open>
  \<open>processOps\<close>: the spread \<open>{ ...this.roomIndexToRoomId }\<close> allocates a new object
  holding the keys of the engine's map; every later write goes through the address of
  the copy. The engine is read (its ranges, the address of its map), never assigned.
  The call returns the address of the copy and the update list, or throws, or never
  returns (\<open>None\<close>).
\<close>

datatype ops_outcome = Returned heap ProcessOpsResult | Thrown JsError heap

definition processOps :: "Sync3 \<Rightarrow> heap \<Rightarrow> Op list \<Rightarrow> ops_outcome option" where
  "processOps this h ops =
     (let indexToRoomID = length h;
          h0 = h @ [h ! roomIndexToRoomId this]
      in case ops_loop (ranges this) indexToRoomID ops (h0, [], Ix (- 1)) of
           None \<Rightarrow> None
         | Some (Throw err h') \<Rightarrow> Some (Thrown err h')
         | Some (Next (h', roomUpdates, gapIndex)) \<Rightarrow>
             Some (Returned h' \<lparr>indexToRoom = indexToRoomID, updates = roomUpdates\<rparr>))"

text \<open>The map and the update list that a call returns, when it returns.\<close>

definition returned_map :: "ops_outcome option \<Rightarrow> IndexToRoomId option" where
  "returned_map out =
     (case out of Some (Returned h res) \<Rightarrow> Some (h ! indexToRoom res) | _ \<Rightarrow> None)"

definition returned_updates :: "ops_outcome option \<Rightarrow> RoomResponse option list option" where
  "returned_updates out =
     (case out of Some (Returned h res) \<Rightarrow> Some (updates res) | _ \<Rightarrow> None)"

text \<open>The store that a call leaves, when it returns and when it throws.\<close>

definition store_after :: "ops_outcome option \<Rightarrow> heap option" where
  "store_after out =
     (case out of Some (Returned h res) \<Rightarrow> Some h | Some (Thrown err h) \<Rightarrow> Some h
      | None \<Rightarrow> None)"

section \<open>The sync loop\<close>

text \<open>
  The request body. The sticky parameters are the sort order, the timeline limit and
  the required state; \<open>room_subscriptions\<close> is never set by the loop and is left out.
\<close>

record Sync3List =
  list_rooms :: "int list list"
  list_timeline_limit :: "int option"
  list_required_state :: "string list list option"
  list_sort :: "string list option"

record Sync3RequestBody =
  session_id :: string
  lists :: "Sync3List list"

record Sync3Response =
  resp_ops :: "Op list"
  resp_counts :: "int list"
  resp_pos :: int

text \<open>
  What the loop does to the outside, in order: \<open>sleep(ms)\<close> and
  \<open>hsApi.sync3(requestBody, pos)\<close>.
\<close>

datatype effect = Sleep nat | Request Sync3RequestBody "int option"

text \<open>
  What the outside does to the status while the loop is suspended. \<open>stop()\<close> sets
  it to \<open>Stopped\<close>; \<open>start()\<close>, when it is \<open>Stopped\<close>, sets it to \<open>InitialSync\<close> and
  enters \<open>syncLoop\<close> a second time, next to the invocation that is suspended; that
  other invocation sets it to \<open>Syncing\<close> after its first answered request.
\<close>

datatype call = Stop | Start | Other_answered

definition stop :: "Sync3 \<Rightarrow> Sync3" where
  "stop t = (if status t = Stopped then t else t\<lparr>status := Stopped\<rparr>)"

definition start :: "Sync3 \<Rightarrow> Sync3" where
  "start t = (if status t \<noteq> Stopped then t else t\<lparr>status := InitialSync\<rparr>)"

fun apply_call :: "Sync3 \<Rightarrow> call \<Rightarrow> Sync3" where
  "apply_call t Stop = stop t"
| "apply_call t Start = start t"
| "apply_call t Other_answered = t\<lparr>status := Syncing\<rparr>"

text \<open>
  What the outside does during one iteration: how the request ends (the awaited
  response, or the error it throws), and the calls made while the loop is suspended
  in the fixed delay, in the request, in the awaited handler, and in the backoff
  sleep. The abort of the request by \<open>stop()\<close> shows as the error of that request.
\<close>

record iter_event =
  in_delay :: "call list"
  in_flight :: "call list"
  response :: "JsError + Sync3Response"
  in_handler :: "call list"
  in_backoff :: "call list"

text \<open>The state of a running loop: the engine, the store, and the locals of \<open>syncLoop\<close>.\<close>

record loop_state =
  this :: Sync3
  hp :: heap
  pos :: "int option"
  backoffCounter :: nat
  effects :: "effect list"

text \<open>
  How a pass through the loop body ends: the loop goes on, the function returns, or
  the pass never ends because the awaited handler never returns.
\<close>

datatype control = Continue | Return | Hang

definition outside :: "call list \<Rightarrow> loop_state \<Rightarrow> loop_state" where
  "outside calls s = s\<lparr>this := foldl apply_call (this s) calls\<rparr>"

definition do_effect :: "effect \<Rightarrow> loop_state \<Rightarrow> loop_state" where
  "do_effect e s = s\<lparr>effects := effects s @ [e]\<rparr>"

definition sync3_list :: "Sync3 \<Rightarrow> bool \<Rightarrow> Sync3List" where
  "sync3_list t isFirstSync =
     (let list = \<lparr>list_rooms = ranges t, list_timeline_limit = None,
                  list_required_state = None, list_sort = None\<rparr>
      in if isFirstSync then
           list\<lparr>list_sort := Some [''by_highlight_count'', ''by_notification_count'', ''by_recency''],
                list_timeline_limit := Some 20,
                list_required_state := Some [[''m.room.avatar'', []]]\<rparr>
         else list)"

definition request_body :: "string \<Rightarrow> Sync3 \<Rightarrow> Sync3RequestBody" where
  "request_body sessionId t =
     \<lparr>session_id = sessionId, lists = [sync3_list t (status t = InitialSync)]\<rparr>"

text \<open>
  The \<open>catch\<close> block; \<open>bump\<close> is \<open>backoffCounter += 1\<close> with its cap at 5.
\<close>

definition bump :: "nat \<Rightarrow> nat" where
  "bump counter = (if counter + 1 > 5 then 5 else counter + 1)"

definition catch_block :: "iter_event \<Rightarrow> JsError \<Rightarrow> loop_state \<Rightarrow> control \<times> loop_state" where
  "catch_block ev err s =
     (if err_name err = ''AbortError'' then
        (if status (this s) = Stopped then (Return, s) else (Continue, s))
      else
        (let counter = bump (backoffCounter s);
             secs = 2 ^ counter
         in (Continue,
             outside (in_backoff ev)
               (do_effect (Sleep (secs * 1000)) (s\<lparr>backoffCounter := counter\<rparr>)))))"

text \<open>
  The first half of the \<open>try\<close> block: the fixed delay, then the request with the
  body built at the top of the loop and the position held by the loop. The state is
  the one in which the request settles.
\<close>

definition issue_request :: "string \<Rightarrow> iter_event \<Rightarrow> loop_state \<Rightarrow> loop_state" where
  "issue_request sessionId ev s =
     (let requestBody = request_body sessionId (this s);
          s1 = outside (in_delay ev) (do_effect (Sleep 100) s)
      in outside (in_flight ev) (do_effect (Request requestBody (pos s1)) s1))"

text \<open>
  What the awaited handler of a response does: it returns, or throws, each with the
  store it leaves; \<open>None\<close> is the handler that never returns.
\<close>

datatype handled = Handled heap | Threw JsError heap

text \<open>
  One pass through the body of the \<open>while\<close> loop. The handler of a response is a
  parameter, so that the loop can be studied with any handler; the source passes
  \<open>processResponse\<close>.
\<close>

definition syncLoop_body ::
  "(Sync3 \<Rightarrow> heap \<Rightarrow> Sync3Response \<Rightarrow> handled option) \<Rightarrow> string \<Rightarrow> iter_event
     \<Rightarrow> loop_state \<Rightarrow> control \<times> loop_state" where
  "syncLoop_body handler sessionId ev s =
     (let isFirstSync = (status (this s) = InitialSync);
          s2 = issue_request sessionId ev s
      in case response ev of
           Inl err \<Rightarrow> catch_block ev err s2
         | Inr resp \<Rightarrow>
             (let s3 = s2\<lparr>backoffCounter := 0\<rparr>
              in case handler (this s3) (hp s3) resp of
                   None \<Rightarrow> (Hang, s3)
                 | Some (Threw err h') \<Rightarrow>
                     catch_block ev err (outside (in_handler ev) (s3\<lparr>hp := h'\<rparr>))
                 | Some (Handled h') \<Rightarrow>
                     (let s4 = (outside (in_handler ev) (s3\<lparr>hp := h'\<rparr>))
                                 \<lparr>pos := Some (resp_pos resp)\<rparr>
                      in (Continue,
                          if isFirstSync then s4\<lparr>this := (this s4)\<lparr>status := Syncing\<rparr>\<rparr>
                          else s4))))"

text \<open>
  The loop, driven by the events of the outside. It answers \<open>Return\<close> when the
  function has returned, \<open>Continue\<close> when it is suspended with no event left, and
  \<open>Hang\<close> when a pass never ends.
\<close>

fun syncLoop ::
  "(Sync3 \<Rightarrow> heap \<Rightarrow> Sync3Response \<Rightarrow> handled option) \<Rightarrow> string \<Rightarrow> iter_event list
     \<Rightarrow> loop_state \<Rightarrow> control \<times> loop_state" where
  "syncLoop handler sessionId [] s =
     (if status (this s) \<noteq> Stopped then (Continue, s) else (Return, s))"
| "syncLoop handler sessionId (ev # evs) s =
     (if status (this s) \<noteq> Stopped then
        (case syncLoop_body handler sessionId ev s of
           (Continue, s') \<Rightarrow> syncLoop handler sessionId evs s'
         | (c, s') \<Rightarrow> (c, s'))
      else (Return, s))"

text \<open>
  \<open>prepareResponse\<close> has an empty body, and \<open>processResponse\<close> drops the map that
  \<open>processOps\<close> returns: the copy stays in the store, unreferenced. What
  \<open>processOps\<close> throws, \<open>processResponse\<close> throws.
\<close>

definition prepareResponse :: "RoomResponse option list \<Rightarrow> heap \<Rightarrow> heap" where
  "prepareResponse roomUpdates h = h"

definition processResponse :: "Sync3 \<Rightarrow> heap \<Rightarrow> Sync3Response \<Rightarrow> handled option" where
  "processResponse t h resp =
     (case processOps t h (resp_ops resp) of
        None \<Rightarrow> None
      | Some (Thrown err h') \<Rightarrow> Some (Threw err h')
      | Some (Returned h' res) \<Rightarrow> Some (Handled (prepareResponse (updates res) h')))"

text \<open>
  The state in which \<open>start()\<close> enters the loop, when it does: the status is
  \<open>InitialSync\<close>, there is no position, and the failure counter is zero.
\<close>

definition entered :: "Sync3 \<Rightarrow> heap \<Rightarrow> loop_state option" where
  "entered t h =
     (if status t \<noteq> Stopped then None
      else Some \<lparr>this = start t, hp = h, pos = None, backoffCounter = 0, effects = []\<rparr>)"

section \<open>Vocabulary of the statements\<close>

text \<open>
  The store that a step leaves; two stores with the same objects outside the address
  \<open>a\<close>.
\<close>

definition step_store :: "step \<Rightarrow> heap" where
  "step_store r = (case r of Next st \<Rightarrow> fst st | Throw err h \<Rightarrow> h)"

definition the_state :: "step option \<Rightarrow> ops_state" where
  "the_state r = (case r of Some (Next st) \<Rightarrow> st | _ \<Rightarrow> ([], [], KNull))"

definition same_outside :: "addr \<Rightarrow> heap \<Rightarrow> heap \<Rightarrow> bool" where
  "same_outside a h h' = (length h' = length h \<and> (\<forall>b. b \<noteq> a \<longrightarrow> h' ! b = h ! b))"

text \<open>The requests and the sleeps in a list of effects, in order.\<close>

fun issued :: "effect list \<Rightarrow> (Sync3RequestBody \<times> int option) list" where
  "issued [] = []"
| "issued (Request b p # es) = (b, p) # issued es"
| "issued (Sleep ms # es) = issued es"

fun sleeps :: "effect list \<Rightarrow> nat list" where
  "sleeps [] = []"
| "sleeps (Sleep ms # es) = ms # sleeps es"
| "sleeps (Request b p # es) = sleeps es"

definition carries_sticky :: "Sync3List \<Rightarrow> bool" where
  "carries_sticky l =
     (list_sort l = Some [''by_highlight_count'', ''by_notification_count'', ''by_recency'']
      \<and> list_timeline_limit l = Some 20
      \<and> list_required_state l = Some [[''m.room.avatar'', []]])"


text \<open>
  A request has the sticky parameters attached when its list carries the three of
  them, and omits them when its list carries none.
\<close>

definition sticky_attached :: "Sync3RequestBody \<times> int option \<Rightarrow> bool" where
  "sticky_attached rq = (case lists (fst rq) of [l] \<Rightarrow> carries_sticky l | _ \<Rightarrow> False)"


text \<open>
  How a request ended; whether the outside left the status alone during the
  iteration; whether it made no call to \<open>start()\<close>.
\<close>

definition cancelled :: "iter_event \<Rightarrow> bool" where
  "cancelled ev = (case response ev of Inl err \<Rightarrow> err_name err = ''AbortError'' | Inr _ \<Rightarrow> False)"

definition failed :: "iter_event \<Rightarrow> bool" where
  "failed ev = (case response ev of Inl err \<Rightarrow> err_name err \<noteq> ''AbortError'' | Inr _ \<Rightarrow> False)"


definition quiet :: "iter_event \<Rightarrow> bool" where
  "quiet ev = (in_delay ev = [] \<and> in_flight ev = [] \<and> in_handler ev = [] \<and> in_backoff ev = [])"


text \<open>The requests that a run of the loop adds to those issued before it.\<close>

definition requests_of_run ::
  "(Sync3 \<Rightarrow> heap \<Rightarrow> Sync3Response \<Rightarrow> handled option) \<Rightarrow> string \<Rightarrow> iter_event list
     \<Rightarrow> loop_state \<Rightarrow> (Sync3RequestBody \<times> int option) list" where
  "requests_of_run handler sessionId evs s =
     drop (length (issued (effects s)))
       (issued (effects (snd (syncLoop handler sessionId evs s))))"

text \<open>
  The effects that the backoff rule gives for a run of requests that fail or are
  cancelled, with \<open>k\<close> failed requests counted so far: every pass sleeps the fixed
  delay and issues its request; a failed one then sleeps \<open>2 ^ min (k + 1) 5\<close>
  seconds and counts; a cancelled one does neither.
\<close>

fun backoff_effects :: "Sync3RequestBody \<Rightarrow> int option \<Rightarrow> nat \<Rightarrow> iter_event list \<Rightarrow> effect list" where
  "backoff_effects b p k [] = []"
| "backoff_effects b p k (ev # evs) =
     (if failed ev
      then [Sleep 100, Request b p, Sleep (2 ^ min (Suc k) 5 * 1000)]
             @ backoff_effects b p (Suc k) evs
      else [Sleep 100, Request b p] @ backoff_effects b p k evs)"

text \<open>
  The rooms that a SYNC over \<open>[lo, hi]\<close> writes: the rooms of the array that fit in
  the range, up to the first missing one. The map after \<open>n\<close> of them are written
  from \<open>lo\<close> on: the room id of \<open>rms[k]\<close> at \<open>lo + k\<close> for \<open>k < n\<close>, every other key
  as it was.
\<close>

definition sync_written :: "int \<Rightarrow> RoomResponse option list \<Rightarrow> nat \<Rightarrow> IndexToRoomId \<Rightarrow> IndexToRoomId" where
  "sync_written lo rms n m =
     (\<lambda>k. case k of
             KNull \<Rightarrow> m KNull
           | Ix j \<Rightarrow>
               if lo \<le> j \<and> j < lo + int n
               then Some (Str (room_id (the (rms ! nat (j - lo))))) else m k)"

definition rooms_written :: "RoomResponse option list \<Rightarrow> int \<Rightarrow> int \<Rightarrow> RoomResponse option list" where
  "rooms_written rms lo hi = takeWhile (\<lambda>r. r \<noteq> None) (take (nat (hi + 1 - lo)) rms)"

text \<open>
  The same two, for the loop that has reached the index \<open>j\<close>.
\<close>

definition written_from :: "RoomResponse option list \<Rightarrow> int \<Rightarrow> int \<Rightarrow> int \<Rightarrow> RoomResponse option list" where
  "written_from rms s hi j =
     takeWhile (\<lambda>r. r \<noteq> None) (drop (nat (j - s)) (take (nat (hi + 1 - s)) rms))"

definition written_map :: "int \<Rightarrow> RoomResponse option list \<Rightarrow> int \<Rightarrow> nat \<Rightarrow> IndexToRoomId \<Rightarrow> IndexToRoomId" where
  "written_map s rms j n m =
     (\<lambda>k. case k of
             KNull \<Rightarrow> m KNull
           | Ix x \<Rightarrow>
               if j \<le> x \<and> x < j + int n
               then Some (Str (room_id (the (rms ! nat (x - s))))) else m k)"

text \<open>
  The map after a shift that makes room at the index \<open>i\<close> from the gap at \<open>d\<close>: a
  tracked position between them takes the value of its neighbour on the side of
  \<open>i\<close>, \<open>undefined\<close> when the neighbour has no key; every other key is as it was.
\<close>

definition shifted :: "int list list \<Rightarrow> int \<Rightarrow> int \<Rightarrow> IndexToRoomId \<Rightarrow> IndexToRoomId" where
  "shifted rs d i m =
     (\<lambda>k. case k of
             KNull \<Rightarrow> m KNull
           | Ix j \<Rightarrow>
               if i < j \<and> j \<le> d \<and> indexInRange rs j then Some (obj_get m (Ix (j - 1)))
               else if d \<le> j \<and> j < i \<and> indexInRange rs j then Some (obj_get m (Ix (j + 1)))
               else m k)"




text \<open>
  An operation of the declared type within the integers that doubles count
  exactly: none of its fields is \<open>null\<close>, and its index and the numbers of its range
  are safe.
\<close>

definition safe_field :: "int field \<Rightarrow> bool" where
  "safe_field f = (case f of Absent \<Rightarrow> True | Null \<Rightarrow> False | Val i \<Rightarrow> safe_index i)"

definition safe_range :: "int list field \<Rightarrow> bool" where
  "safe_range f = (case f of Absent \<Rightarrow> True | Null \<Rightarrow> False | Val rg \<Rightarrow> list_all safe_index rg)"

definition safe_key :: "key \<Rightarrow> bool" where
  "safe_key k = (case k of Ix i \<Rightarrow> safe_index i | KNull \<Rightarrow> False)"

definition declared :: "Op \<Rightarrow> bool" where
  "declared op =
     (safe_range (op_range op) \<and> safe_field (op_index op)
      \<and> op_rooms op \<noteq> Null \<and> op_room op \<noteq> Null)"

text \<open>Operations as the server writes them, and the values of the worked examples.\<close>

definition mk_room :: "string \<Rightarrow> RoomResponse" where
  "mk_room rid = \<lparr>room_id = rid, name = [], required_state = [], timeline = [],
                  notification_count = 0, highlight_count = 0\<rparr>"

definition DELETE :: "int \<Rightarrow> Op" where
  "DELETE i = \<lparr>op_list = 0, op_op = ''DELETE'', op_range = Absent, op_rooms = Absent,
               op_index = Val i, op_room = Absent\<rparr>"

definition INSERT :: "int \<Rightarrow> RoomResponse \<Rightarrow> Op" where
  "INSERT i r = \<lparr>op_list = 0, op_op = ''INSERT'', op_range = Absent, op_rooms = Absent,
                 op_index = Val i, op_room = Val r\<rparr>"

definition UPDATE :: "int \<Rightarrow> RoomResponse \<Rightarrow> Op" where
  "UPDATE i r = \<lparr>op_list = 0, op_op = ''UPDATE'', op_range = Absent, op_rooms = Absent,
                 op_index = Val i, op_room = Val r\<rparr>"

definition SYNC :: "int \<Rightarrow> int \<Rightarrow> RoomResponse option list \<Rightarrow> Op" where
  "SYNC lo hi rms = \<lparr>op_list = 0, op_op = ''SYNC'', op_range = Val [lo, hi],
                     op_rooms = Val rms, op_index = Absent, op_room = Absent\<rparr>"

definition example_map :: IndexToRoomId where
  "example_map = [Ix 0 \<mapsto> Str ''a'', Ix 1 \<mapsto> Str ''b'', Ix 2 \<mapsto> Str ''c'',
                  Ix 6 \<mapsto> Str ''d'', Ix 7 \<mapsto> Str ''e'', Ix 8 \<mapsto> Str ''f'']"

definition example_engine :: Sync3 where
  "example_engine = \<lparr>ranges = [[0, 5], [6, 8]], roomIndexToRoomId = 0, status = Syncing\<rparr>"


definition null_room_insert :: Op where
  "null_room_insert = \<lparr>op_list = 0, op_op = ''INSERT'', op_range = Absent, op_rooms = Absent,
                        op_index = Val 3, op_room = Null\<rparr>"

definition example_state :: loop_state where
  "example_state = \<lparr>this = example_engine\<lparr>status := InitialSync\<rparr>, hp = [example_map],
                      pos = None, backoffCounter = 0, effects = []\<rparr>"

definition ok_event :: "int \<Rightarrow> iter_event" where
  "ok_event p = \<lparr>in_delay = [], in_flight = [],
                 response = Inr \<lparr>resp_ops = [DELETE 7, INSERT 0 (mk_room ''g'')],
                                  resp_counts = [9], resp_pos = p\<rparr>,
                 in_handler = [], in_backoff = []\<rparr>"

definition error_event :: "string \<Rightarrow> iter_event" where
  "error_event nm = \<lparr>in_delay = [], in_flight = [],
                     response = Inl \<lparr>err_name = nm, err_message = []\<rparr>,
                     in_handler = [], in_backoff = []\<rparr>"

definition null_room_event :: "int \<Rightarrow> iter_event" where
  "null_room_event p = \<lparr>in_delay = [], in_flight = [],
                        response = Inr \<lparr>resp_ops = [null_room_insert], resp_counts = [9],
                                         resp_pos = p\<rparr>,
                        in_handler = [], in_backoff = []\<rparr>"


section \<open>Doubles that are exact\<close>

lemma excess_small: "n < 2 ^ 53 \<Longrightarrow> excess n = 0"
  by (simp add: excess.simps)

lemma excess_next: "2 ^ 53 \<le> n \<Longrightarrow> n < 2 ^ 54 \<Longrightarrow> excess n = 1"
  by (subst excess.simps, subst excess.simps) simp

lemma dbl_small: "\<bar>i\<bar> < 2 ^ 53 \<Longrightarrow> dbl i = i"
proof -
  assume "\<bar>i\<bar> < 2 ^ 53"
  then have "nat \<bar>i\<bar> < 2 ^ 53" by (simp add: nat_less_iff)
  then have e: "excess (nat \<bar>i\<bar>) = 0" by (rule excess_small)
  show ?thesis by (simp add: dbl_def e Let_def) (simp add: sgn_if)
qed

lemma dbl_top: "dbl (2 ^ 53) = 2 ^ 53"
proof -
  have e: "excess 9007199254740992 = 1"
    by (rule excess_next) simp_all
  show ?thesis by (simp add: dbl_def e Let_def)
qed

lemma dbl_bottom: "dbl (- (2 ^ 53)) = - (2 ^ 53)"
proof -
  have e: "excess 9007199254740992 = 1"
    by (rule excess_next) simp_all
  show ?thesis by (simp add: dbl_def e Let_def)
qed

lemma dbl_exact: "- (2 ^ 53) \<le> i \<Longrightarrow> i \<le> 2 ^ 53 \<Longrightarrow> dbl i = i"
proof -
  assume a: "- (2 ^ 53) \<le> i" "i \<le> 2 ^ 53"
  consider "i = 2 ^ 53" | "i = - (2 ^ 53)" | "\<bar>i\<bar> < 2 ^ 53"
    using a by linarith
  then show ?thesis
    using dbl_top dbl_bottom by cases (simp_all add: dbl_small)
qed

lemma dbl_stalls: "dbl (2 ^ 53 + 1) = 2 ^ 53"
proof -
  have e: "excess 9007199254740993 = 1"
    by (rule excess_next) simp_all
  show ?thesis by (simp add: dbl_def e Let_def)
qed

lemma safe_inc: "safe_index j \<Longrightarrow> dbl (j + 1) = j + 1"
  by (rule dbl_exact) (simp_all add: safe_index_def)

lemma safe_dec: "safe_index j \<Longrightarrow> dbl (j - 1) = j - 1"
  by (rule dbl_exact) (simp_all add: safe_index_def)

lemma safe_diff: "safe_index j \<Longrightarrow> safe_index s \<Longrightarrow> s \<le> j \<Longrightarrow> j - s \<le> 2 ^ 53 \<Longrightarrow> dbl (j - s) = j - s"
  by (rule dbl_exact) (simp_all add: safe_index_def)

section \<open>Writes go to one address\<close>

lemma length_store [simp]: "length (store a k v h) = length h"
  by (simp add: store_def)

lemma length_remove [simp]: "length (remove a k h) = length h"
  by (simp add: remove_def)

lemma nth_store_other [simp]: "b \<noteq> a \<Longrightarrow> store a k v h ! b = h ! b"
  by (simp add: store_def)

lemma nth_remove_other [simp]: "b \<noteq> a \<Longrightarrow> remove a k h ! b = h ! b"
  by (simp add: remove_def)

lemma nth_store_same [simp]: "a < length h \<Longrightarrow> store a k v h ! a = (h ! a)(k \<mapsto> v)"
  by (simp add: store_def)

lemma nth_remove_same [simp]: "a < length h \<Longrightarrow> remove a k h ! a = (h ! a)(k := None)"
  by (simp add: remove_def)

lemma same_outside_refl [simp]: "same_outside a h h"
  by (simp add: same_outside_def)

lemma same_outside_trans: "same_outside a h h1 \<Longrightarrow> same_outside a h1 h2 \<Longrightarrow> same_outside a h h2"
  by (simp add: same_outside_def)

lemma same_outside_store [simp]: "same_outside a h (store a k v h)"
  by (simp add: same_outside_def)

lemma same_outside_remove [simp]: "same_outside a h (remove a k h)"
  by (simp add: same_outside_def)

lemma sync_loop_frame:
  assumes "sync_loop a rms s hi j st = Some st'"
  shows "same_outside a (fst st) (fst st')"
proof (rule sync_loop.raw_induct
    [where P = "\<lambda>a rms s hi j st st'. same_outside a (fst st) (fst st')", OF _ assms])
  fix f a rms s hi j and st st' :: "heap \<times> RoomResponse option list"
  assume IH: "\<And>a rms s hi j st st'. f a rms s hi j st = Some st'
                \<Longrightarrow> same_outside a (fst st) (fst st')"
    and eq: "(if j \<le> hi then
                (case array_get rms (dbl (j - s)) of
                   None \<Rightarrow> Some st
                 | Some r \<Rightarrow>
                     f a rms s hi (dbl (j + 1))
                       (store a (Ix j) (Str (room_id r)) (fst st), snd st @ [Some r]))
              else Some st) = Some st'"
  show "same_outside a (fst st) (fst st')"
  proof (cases "j \<le> hi")
    case False
    with eq show ?thesis by simp
  next
    case True
    show ?thesis
    proof (cases "array_get rms (dbl (j - s))")
      case None
      with True eq show ?thesis by simp
    next
      case (Some r)
      with True eq have
        "f a rms s hi (dbl (j + 1)) (store a (Ix j) (Str (room_id r)) (fst st), snd st @ [Some r])
           = Some st'"
        by simp
      from IH [OF this] show ?thesis
        using same_outside_trans [OF same_outside_store] by simp
    qed
  qed
qed

lemma invalidate_loop_frame:
  assumes "invalidate_loop a hi j h = Some h'"
  shows "same_outside a h h'"
proof (rule invalidate_loop.raw_induct
    [where P = "\<lambda>a hi j h h'. same_outside a h h'", OF _ assms])
  fix f a hi j and h h' :: heap
  assume IH: "\<And>a hi j h h'. f a hi j h = Some h' \<Longrightarrow> same_outside a h h'"
    and eq: "(if j \<le> hi then f a hi (dbl (j + 1)) (remove a (Ix j) h) else Some h) = Some h'"
  show "same_outside a h h'"
  proof (cases "j \<le> hi")
    case False
    with eq show ?thesis by simp
  next
    case True
    with eq have "f a hi (dbl (j + 1)) (remove a (Ix j) h) = Some h'"
      by simp
    from IH [OF this] show ?thesis
      using same_outside_trans [OF same_outside_remove] by simp
  qed
qed

lemma shift_right_frame:
  assumes "shift_right rs a idx j h = Some h'"
  shows "same_outside a h h'"
proof (rule shift_right.raw_induct
    [where P = "\<lambda>rs a idx j h h'. same_outside a h h'", OF _ assms])
  fix f rs a idx j and h h' :: heap
  let ?h1 = "if indexInRange rs (to_num j)
             then store a j (load h a (Ix (dbl (to_num j - 1)))) h else h"
  assume IH: "\<And>rs a idx j h h'. f rs a idx j h = Some h' \<Longrightarrow> same_outside a h h'"
    and eq: "(if to_num j > to_num idx then f rs a idx (Ix (dbl (to_num j - 1))) ?h1
              else Some h) = Some h'"
  show "same_outside a h h'"
  proof (cases "to_num j > to_num idx")
    case False
    with eq show ?thesis by simp
  next
    case True
    with eq have "f rs a idx (Ix (dbl (to_num j - 1))) ?h1 = Some h'"
      by simp
    from IH [OF this] have "same_outside a ?h1 h'" .
    moreover have "same_outside a h ?h1" by simp
    ultimately show ?thesis by (rule same_outside_trans [rotated])
  qed
qed

lemma shift_left_frame:
  assumes "shift_left rs a idx j h = Some h'"
  shows "same_outside a h h'"
proof (rule shift_left.raw_induct
    [where P = "\<lambda>rs a idx j h h'. same_outside a h h'", OF _ assms])
  fix f rs a idx j and h h' :: heap
  let ?h1 = "if indexInRange rs (to_num j)
             then store a j (load h a (Ix (dbl (to_num j + 1)))) h else h"
  assume IH: "\<And>rs a idx j h h'. f rs a idx j h = Some h' \<Longrightarrow> same_outside a h h'"
    and eq: "(if to_num j < to_num idx then f rs a idx (Ix (dbl (to_num j + 1))) ?h1
              else Some h) = Some h'"
  show "same_outside a h h'"
  proof (cases "to_num j < to_num idx")
    case False
    with eq show ?thesis by simp
  next
    case True
    with eq have "f rs a idx (Ix (dbl (to_num j + 1))) ?h1 = Some h'"
      by simp
    from IH [OF this] have "same_outside a ?h1 h'" .
    moreover have "same_outside a h ?h1" by simp
    ultimately show ?thesis by (rule same_outside_trans [rotated])
  qed
qed

lemma assign_room_frame:
  assumes "assign_room a idx rm ups g (Some h1) = Some r" "same_outside a h h1"
  shows "same_outside a h (step_store r)"
  using assms same_outside_trans [OF assms(2) same_outside_store]
  by (auto simp: assign_room_def step_store_def split: field.splits)

lemma process_op_frame:
  assumes "process_op rs a op st = Some r"
  shows "same_outside a (fst st) (step_store r)"
proof -
  obtain h u g where st: "st = (h, u, g)" by (cases st) auto
  have sy: "same_outside a h (step_store r)" if "process_sync a op st = Some r"
    using that sync_loop_frame [of a _ _ _ _ "(h, u)"]
    by (auto simp: process_sync_def st step_store_def
        split: if_splits field.splits list.splits option.splits)
  have inv: "same_outside a h (step_store r)" if "process_invalidate a op st = Some r"
    using that invalidate_loop_frame [of a _ _ h]
    by (auto simp: process_invalidate_def st step_store_def
        split: field.splits list.splits option.splits)
  have ins: "same_outside a h (step_store r)" if p: "process_insert rs a op st = Some r"
  proof (cases "index_key (op_index op)")
    case None
    with p show ?thesis by (auto simp: process_insert_def st step_store_def)
  next
    case (Some idx)
    show ?thesis
    proof (cases "op_room op = Absent \<or> (truthy (load h a idx) \<and> to_num g < 0)")
      case True
      with p Some show ?thesis by (auto simp: process_insert_def st step_store_def split: if_splits)
    next
      case False
      let ?sh = "if truthy (load h a idx)
                 then (if to_num g > to_num idx then shift_right rs a idx g h
                       else if to_num g < to_num idx then shift_left rs a idx g h
                       else Some h)
                 else Some h"
      from p Some False have ar: "assign_room a idx (op_room op) u g ?sh = Some r"
        by (auto simp: process_insert_def st split: if_splits)
      then obtain h1 where h1: "?sh = Some h1"
        by (cases ?sh) (auto simp: assign_room_def)
      have "same_outside a h h1"
        using h1 shift_right_frame [of rs a idx g h h1] shift_left_frame [of rs a idx g h h1]
        by (auto split: if_splits)
      with ar h1 show ?thesis
        using assign_room_frame [of a idx "op_room op" u g h1 r h] by simp
    qed
  qed
  have del: "same_outside a h (step_store r)" if "process_delete a op st = Some r"
    using that by (auto simp: process_delete_def st step_store_def split: option.splits)
  have upd: "same_outside a h (step_store r)" if "process_update op st = Some r"
    using that by (auto simp: process_update_def st step_store_def split: if_splits)
  have other: "same_outside a h (step_store (Next st))"
    by (simp add: st step_store_def)
  show ?thesis
    using assms sy inv ins del upd other
    by (auto simp: process_op_def st split: if_splits)
qed

lemma ops_loop_frame:
  "ops_loop rs a ops st = Some r \<Longrightarrow> same_outside a (fst st) (step_store r)"
proof (induction ops arbitrary: st)
  case Nil
  then show ?case by (cases st) (auto simp: step_store_def)
next
  case (Cons op ops)
  show ?case
  proof (cases "process_op rs a op st")
    case None
    with Cons.prems show ?thesis by simp
  next
    case (Some r1)
    note fr = process_op_frame [OF Some]
    show ?thesis
    proof (cases r1)
      case (Throw e h1)
      with Some Cons.prems fr show ?thesis by auto
    next
      case (Next st1)
      with Some Cons.prems have "ops_loop rs a ops st1 = Some r" by simp
      from Cons.IH [OF this] fr Next show ?thesis
        by (cases st1) (auto simp: step_store_def intro: same_outside_trans)
    qed
  qed
qed

lemma processOps_store:
  "store_after (processOps t h ops) =
     map_option step_store
       (ops_loop (ranges t) (length h) ops (h @ [h ! roomIndexToRoomId t], [], Ix (- 1)))"
  by (simp add: processOps_def store_after_def step_store_def Let_def
      split: option.splits step.splits prod.splits)

section \<open>The committed map survives a reconciliation\<close>

text \<open>
  Claim C5. \<open>processOps\<close> is non-destructive: whatever the operations, when the call
  ends, by returning or by throwing, the object at the address held in
  \<open>roomIndexToRoomId\<close> is what it was before the call, key for key, and so is every
  object that existed before the call. The returned map is at a fresh address, which
  is not the address of the engine's map; with no operation it holds the keys of the
  engine's map.
\<close>

theorem processOps_non_destructive:
  assumes "roomIndexToRoomId t < length h"
  shows "(store_after (processOps t h ops) = Some h' \<longrightarrow>
            h' ! roomIndexToRoomId t = h ! roomIndexToRoomId t
            \<and> take (length h) h' = h \<and> length h' = Suc (length h))
    \<and> (processOps t h ops = Some (Returned h' res) \<longrightarrow>
            indexToRoom res = length h \<and> indexToRoom res \<noteq> roomIndexToRoomId t)
    \<and> returned_map (processOps t h []) = Some (h ! roomIndexToRoomId t)"
proof -
  let ?a = "length h"
  let ?h0 = "h @ [h ! roomIndexToRoomId t]"
  have after: "h' ! roomIndexToRoomId t = h ! roomIndexToRoomId t
            \<and> take (length h) h' = h \<and> length h' = Suc (length h)"
    if "store_after (processOps t h ops) = Some h'"
  proof -
    from that obtain r where r: "ops_loop (ranges t) ?a ops (?h0, [], Ix (- 1)) = Some r"
      and h': "h' = step_store r"
      by (auto simp: processOps_store)
    from ops_loop_frame [OF r] have so: "same_outside ?a ?h0 h'"
      by (simp add: h')
    then have len: "length h' = Suc ?a"
      by (simp add: same_outside_def)
    have old: "h' ! b = h ! b" if "b < ?a" for b
      using that so by (simp add: same_outside_def nth_append)
    have tk: "take ?a h' = h"
      by (rule nth_equalityI) (use len old in auto)
    show ?thesis
      using assms len old tk by simp
  qed
  have fresh: "indexToRoom res = length h \<and> indexToRoom res \<noteq> roomIndexToRoomId t"
    if "processOps t h ops = Some (Returned h' res)"
    using that assms
    by (auto simp: processOps_def Let_def split: option.splits step.splits prod.splits)
  have emp: "returned_map (processOps t h []) = Some (h ! roomIndexToRoomId t)"
    by (simp add: returned_map_def processOps_def)
  from after fresh emp show ?thesis by blast
qed

theorem processOps_non_destructive_witness:
  "roomIndexToRoomId example_engine < length [example_map]
   \<and> store_after (processOps example_engine [example_map] [DELETE 7, null_room_insert])
       = Some [example_map, example_map(Ix 7 := None)]
   \<and> [example_map, example_map(Ix 7 := None)] ! roomIndexToRoomId example_engine
       = [example_map] ! roomIndexToRoomId example_engine
   \<and> processOps example_engine [example_map] [DELETE 7]
       = Some (Returned [example_map, example_map(Ix 7 := None)]
                 \<lparr>indexToRoom = 1, updates = []\<rparr>)
   \<and> indexToRoom \<lparr>indexToRoom = 1, updates = []\<rparr> \<noteq> roomIndexToRoomId example_engine"
proof -
  have a: "roomIndexToRoomId example_engine < length [example_map]"
    by (simp add: example_engine_def)
  have b: "store_after (processOps example_engine [example_map] [DELETE 7, null_room_insert])
       = Some [example_map, example_map(Ix 7 := None)]"
    by (simp add: store_after_def processOps_def example_engine_def DELETE_def
        null_room_insert_def process_op_def process_delete_def process_insert_def
        assign_room_def remove_def load_def obj_get_def example_map_def)
  have c: "processOps example_engine [example_map] [DELETE 7]
       = Some (Returned [example_map, example_map(Ix 7 := None)]
                 \<lparr>indexToRoom = 1, updates = []\<rparr>)"
    by (simp add: processOps_def example_engine_def DELETE_def process_op_def
        process_delete_def remove_def)
  show ?thesis
    using a b c
      processOps_non_destructive [OF a, of "[DELETE 7, null_room_insert]"
        "[example_map, example_map(Ix 7 := None)]"]
      processOps_non_destructive [OF a, of "[DELETE 7]"
        "[example_map, example_map(Ix 7 := None)]" "\<lparr>indexToRoom = 1, updates = []\<rparr>"]
    by simp
qed

section \<open>The reconciler on the documented example\<close>

lemmas reconciler_defs = returned_map_def returned_updates_def store_after_def processOps_def
  Let_def example_engine_def example_map_def DELETE_def INSERT_def UPDATE_def SYNC_def
  mk_room_def process_op_def process_delete_def process_insert_def process_update_def
  process_sync_def assign_room_def load_def store_def remove_def obj_get_def indexInRange_def
  shift_right.simps shift_left.simps sync_loop.simps array_get_def dbl_small

text \<open>
  Claim C1, as stated: with the index map \<open>{0:a,1:b,2:c,6:d,7:e,8:f}\<close> and the ranges
  \<open>[[0,5],[6,8]]\<close>, the batch \<open>DELETE 7; INSERT 0 g\<close> would give exactly
  \<open>{0:g,1:a,2:b,3:c,6:d,8:f}\<close>. It does not: the shift runs from the gap at 7 down
  to 1, so \<open>d\<close> moves from 6 to 7.
\<close>

theorem worked_example_counterexample:
  "returned_map (processOps example_engine [example_map] [DELETE 7, INSERT 0 (mk_room ''g'')])
     \<noteq> Some [Ix 0 \<mapsto> Str ''g'', Ix 1 \<mapsto> Str ''a'', Ix 2 \<mapsto> Str ''b'', Ix 3 \<mapsto> Str ''c'',
              Ix 6 \<mapsto> Str ''d'', Ix 8 \<mapsto> Str ''f'']"
proof
  assume "returned_map (processOps example_engine [example_map]
            [DELETE 7, INSERT 0 (mk_room ''g'')])
     = Some [Ix 0 \<mapsto> Str ''g'', Ix 1 \<mapsto> Str ''a'', Ix 2 \<mapsto> Str ''b'', Ix 3 \<mapsto> Str ''c'',
              Ix 6 \<mapsto> Str ''d'', Ix 8 \<mapsto> Str ''f'']"
  then have "the (returned_map (processOps example_engine [example_map]
            [DELETE 7, INSERT 0 (mk_room ''g'')])) (Ix 7)
     = [Ix 0 \<mapsto> Str ''g'', Ix 1 \<mapsto> Str ''a'', Ix 2 \<mapsto> Str ''b'', Ix 3 \<mapsto> Str ''c'',
              Ix 6 \<mapsto> Str ''d'', Ix 8 \<mapsto> Str ''f''] (Ix 7)"
    by simp
  then show False
    by (simp add: reconciler_defs)
qed

text \<open>
  Claim C1, amended. With the ranges \<open>[[0,5],[6,8]]\<close> every index from 7 down to 1
  is tracked and takes the value of its predecessor: the call returns
  \<open>{0:g,1:a,2:b,3:c,7:d,8:f}\<close>, with the keys 4, 5 and 6 present and holding
  \<open>undefined\<close>, and the update list \<open>[g]\<close>. With the ranges \<open>[[0,2],[6,8]]\<close> of
  the comment in the source, the positions 3, 4 and 5 are outside the tracked ranges
  and are not populated: the call returns \<open>{0:g,1:a,2:b,7:d,8:f}\<close> with the key 6
  holding \<open>undefined\<close>.
\<close>

theorem worked_example:
  "returned_map (processOps example_engine [example_map] [DELETE 7, INSERT 0 (mk_room ''g'')])
     = Some [Ix 0 \<mapsto> Str ''g'', Ix 1 \<mapsto> Str ''a'', Ix 2 \<mapsto> Str ''b'', Ix 3 \<mapsto> Str ''c'',
             Ix 4 \<mapsto> Undefined, Ix 5 \<mapsto> Undefined, Ix 6 \<mapsto> Undefined,
             Ix 7 \<mapsto> Str ''d'', Ix 8 \<mapsto> Str ''f'']
   \<and> returned_updates (processOps example_engine [example_map]
         [DELETE 7, INSERT 0 (mk_room ''g'')]) = Some [Some (mk_room ''g'')]
   \<and> returned_map (processOps (example_engine\<lparr>ranges := [[0, 2], [6, 8]]\<rparr>) [example_map]
         [DELETE 7, INSERT 0 (mk_room ''g'')])
     = Some [Ix 0 \<mapsto> Str ''g'', Ix 1 \<mapsto> Str ''a'', Ix 2 \<mapsto> Str ''b'',
             Ix 6 \<mapsto> Undefined, Ix 7 \<mapsto> Str ''d'', Ix 8 \<mapsto> Str ''f'']"
proof -
  have full: "returned_map (processOps example_engine [example_map]
        [DELETE 7, INSERT 0 (mk_room ''g'')])
     = Some [Ix 0 \<mapsto> Str ''g'', Ix 1 \<mapsto> Str ''a'', Ix 2 \<mapsto> Str ''b'', Ix 3 \<mapsto> Str ''c'',
             Ix 4 \<mapsto> Undefined, Ix 5 \<mapsto> Undefined, Ix 6 \<mapsto> Undefined,
             Ix 7 \<mapsto> Str ''d'', Ix 8 \<mapsto> Str ''f'']"
    by (simp add: reconciler_defs) (rule ext, simp)
  have ups: "returned_updates (processOps example_engine [example_map]
         [DELETE 7, INSERT 0 (mk_room ''g'')]) = Some [Some (mk_room ''g'')]"
    by (simp add: reconciler_defs)
  have sparse: "returned_map (processOps (example_engine\<lparr>ranges := [[0, 2], [6, 8]]\<rparr>)
         [example_map] [DELETE 7, INSERT 0 (mk_room ''g'')])
     = Some [Ix 0 \<mapsto> Str ''g'', Ix 1 \<mapsto> Str ''a'', Ix 2 \<mapsto> Str ''b'',
             Ix 6 \<mapsto> Undefined, Ix 7 \<mapsto> Str ''d'', Ix 8 \<mapsto> Str ''f'']"
    by (simp add: reconciler_defs) (rule ext, simp)
  from full ups sparse show ?thesis by (intro conjI)
qed

section \<open>DELETE then INSERT at one index, against UPDATE\<close>

text \<open>
  Claim C3, as stated: \<open>DELETE i; INSERT i r\<close> and \<open>UPDATE i r\<close> would give the same
  index map. They do not: UPDATE never writes the map.
\<close>

theorem delete_insert_update_counterexample:
  "returned_map (processOps example_engine [example_map] [DELETE 0, INSERT 0 (mk_room ''g'')])
     \<noteq> returned_map (processOps example_engine [example_map] [UPDATE 0 (mk_room ''g'')])"
proof
  assume "returned_map (processOps example_engine [example_map]
            [DELETE 0, INSERT 0 (mk_room ''g'')])
     = returned_map (processOps example_engine [example_map] [UPDATE 0 (mk_room ''g'')])"
  then have "the (returned_map (processOps example_engine [example_map]
            [DELETE 0, INSERT 0 (mk_room ''g'')])) (Ix 0)
     = the (returned_map (processOps example_engine [example_map]
            [UPDATE 0 (mk_room ''g'')])) (Ix 0)"
    by simp
  then show False
    by (simp add: reconciler_defs)
qed

text \<open>
  Claim C3, amended. From the same starting map, both batches return, with the
  update list \<open>[r]\<close>. The map of \<open>DELETE i; INSERT i r\<close> is the starting map with the
  room id of \<open>r\<close> at \<open>i\<close> and nothing shifted; the map of \<open>UPDATE i r\<close> is the starting
  map. The two maps are equal exactly when the starting map already holds the room id
  of \<open>r\<close> at \<open>i\<close>.
\<close>

theorem delete_insert_update:
  "returned_map (processOps t h [DELETE i, INSERT i r])
     = Some ((h ! roomIndexToRoomId t)(Ix i \<mapsto> Str (room_id r)))
   \<and> returned_map (processOps t h [UPDATE i r]) = Some (h ! roomIndexToRoomId t)
   \<and> returned_updates (processOps t h [DELETE i, INSERT i r]) = Some [Some r]
   \<and> returned_updates (processOps t h [UPDATE i r]) = Some [Some r]
   \<and> (returned_map (processOps t h [DELETE i, INSERT i r])
        = returned_map (processOps t h [UPDATE i r]))
       = ((h ! roomIndexToRoomId t) (Ix i) = Some (Str (room_id r)))"
proof -
  have a: "returned_map (processOps t h [DELETE i, INSERT i r])
      = Some ((h ! roomIndexToRoomId t)(Ix i \<mapsto> Str (room_id r)))"
    by (simp add: returned_map_def processOps_def DELETE_def INSERT_def process_op_def
        process_delete_def process_insert_def assign_room_def load_def store_def remove_def
        obj_get_def)
  have b: "returned_map (processOps t h [UPDATE i r]) = Some (h ! roomIndexToRoomId t)"
    by (simp add: returned_map_def processOps_def UPDATE_def process_op_def process_update_def)
  have c: "returned_updates (processOps t h [DELETE i, INSERT i r]) = Some [Some r]"
    by (simp add: returned_updates_def processOps_def DELETE_def INSERT_def process_op_def
        process_delete_def process_insert_def assign_room_def load_def store_def remove_def
        obj_get_def)
  have d: "returned_updates (processOps t h [UPDATE i r]) = Some [Some r]"
    by (simp add: returned_updates_def processOps_def UPDATE_def process_op_def
        process_update_def)
  have e: "((h ! roomIndexToRoomId t)(Ix i \<mapsto> Str (room_id r)) = h ! roomIndexToRoomId t)
       = ((h ! roomIndexToRoomId t) (Ix i) = Some (Str (room_id r)))"
    by (metis fun_upd_same fun_upd_triv)
  show ?thesis using a b c d e by simp
qed

section \<open>What SYNC writes\<close>

lemma rooms_written_from: "rooms_written rms lo hi = written_from rms lo hi lo"
  by (simp add: rooms_written_def written_from_def)

lemma sync_written_map: "sync_written lo rms n m = written_map lo rms lo n m"
  by (simp add: sync_written_def written_map_def)

lemma written_from_done: "s \<le> j \<Longrightarrow> \<not> j \<le> hi \<Longrightarrow> written_from rms s hi j = []"
  by (simp add: written_from_def)

lemma written_from_none:
  assumes "s \<le> j" and "array_get rms (j - s) = None"
  shows "written_from rms s hi j = []"
proof (cases "nat (j - s) < length (take (nat (hi + 1 - s)) rms)")
  case False
  then have "length (take (nat (hi + 1 - s)) rms) \<le> nat (j - s)"
    by (simp only: not_less)
  then have "drop (nat (j - s)) (take (nat (hi + 1 - s)) rms) = []"
    by (rule drop_all)
  then show ?thesis by (simp only: written_from_def takeWhile.simps)
next
  case True
  then have "take (nat (hi + 1 - s)) rms ! nat (j - s) = None"
    using assms by (simp add: array_get_def split: if_splits)
  with True show ?thesis
    unfolding written_from_def
    by (subst Cons_nth_drop_Suc [symmetric]) simp_all
qed

lemma written_from_some:
  assumes "s \<le> j" and "j \<le> hi" and "array_get rms (j - s) = Some r"
  shows "written_from rms s hi j = Some r # written_from rms s hi (j + 1)"
proof -
  from assms have k: "nat (j - s) < length rms" and rk: "rms ! nat (j - s) = Some r"
    by (auto simp: array_get_def split: if_splits)
  have km: "nat (j - s) < nat (hi + 1 - s)" using assms by simp
  have sk: "nat (j + 1 - s) = Suc (nat (j - s))" using assms by simp
  have "drop (nat (j - s)) (take (nat (hi + 1 - s)) rms)
      = Some r # drop (Suc (nat (j - s))) (take (nat (hi + 1 - s)) rms)"
    using k km rk by (simp add: Cons_nth_drop_Suc [symmetric])
  then show ?thesis
    unfolding written_from_def sk by simp
qed

lemma written_map_0: "written_map s rms j 0 m = m"
  by (auto simp: written_map_def fun_eq_iff split: key.splits)

lemma written_map_step:
  assumes "s \<le> j" and "rms ! nat (j - s) = Some r"
  shows "written_map s rms (j + 1) n (m(Ix j \<mapsto> Str (room_id r)))
       = written_map s rms j (Suc n) m"
  using assms by (auto simp: written_map_def fun_eq_iff split: key.splits)

lemma sync_loop_result:
  "a < length (fst st) \<Longrightarrow> safe_index s \<Longrightarrow> safe_index hi \<Longrightarrow> hi - s < 2 ^ 53
   \<Longrightarrow> s \<le> j \<Longrightarrow> j \<le> hi + 1 \<Longrightarrow>
   \<exists>h'. sync_loop a rms s hi j st = Some (h', snd st @ written_from rms s hi j)
        \<and> length h' = length (fst st)
        \<and> h' ! a = written_map s rms j (length (written_from rms s hi j)) (fst st ! a)"
proof (induction "nat (hi + 1 - j)" arbitrary: j st)
  case 0
  then have jhi: "\<not> j \<le> hi" by simp
  have w: "written_from rms s hi j = []"
    using 0 jhi by (simp add: written_from_done)
  have "sync_loop a rms s hi j st = Some st"
    using jhi by (subst sync_loop.simps) simp
  then show ?case
    by (intro exI [of _ "fst st"]) (simp add: w written_map_0)
next
  case (Suc n)
  from Suc.hyps(2) have jhi: "j \<le> hi" by simp
  have sj: "safe_index j"
    using jhi Suc.prems by (simp add: safe_index_def)
  have inc: "dbl (j + 1) = j + 1" using sj by (rule safe_inc)
  have diff: "dbl (j - s) = j - s"
    using Suc.prems jhi by (intro dbl_exact) (simp_all add: safe_index_def)
  show ?case
  proof (cases "array_get rms (j - s)")
    case None
    have w: "written_from rms s hi j = []"
      using Suc.prems None by (simp add: written_from_none)
    have "sync_loop a rms s hi j st = Some st"
      using jhi None by (subst sync_loop.simps) (simp add: diff)
    then show ?thesis
      by (intro exI [of _ "fst st"]) (simp add: w written_map_0)
  next
    case (Some r)
    with Suc.prems have rk: "rms ! nat (j - s) = Some r"
      by (auto simp: array_get_def split: if_splits)
    have w: "written_from rms s hi j = Some r # written_from rms s hi (j + 1)"
      using Suc.prems jhi Some by (simp add: written_from_some)
    let ?st1 = "(store a (Ix j) (Str (room_id r)) (fst st), snd st @ [Some r])"
    have unf: "sync_loop a rms s hi j st = sync_loop a rms s hi (j + 1) ?st1"
      using jhi Some by (subst sync_loop.simps) (simp add: diff inc)
    have n: "n = nat (hi + 1 - (j + 1))" using Suc.hyps(2) by simp
    have a1: "a < length (fst ?st1)" using Suc.prems by simp
    have b1: "s \<le> j + 1" "j + 1 \<le> hi + 1" using Suc.prems jhi by simp_all
    from Suc.hyps(1) [OF n a1 Suc.prems(2) Suc.prems(3) Suc.prems(4) b1]
    obtain h' where
      r1: "sync_loop a rms s hi (j + 1) ?st1
             = Some (h', snd ?st1 @ written_from rms s hi (j + 1))"
      and l1: "length h' = length (fst ?st1)"
      and m1: "h' ! a = written_map s rms (j + 1) (length (written_from rms s hi (j + 1)))
                          (fst ?st1 ! a)"
      by blast
    have fa: "fst ?st1 ! a = (fst st ! a)(Ix j \<mapsto> Str (room_id r))"
      using Suc.prems(1) by simp
    have A: "sync_loop a rms s hi j st = Some (h', snd st @ written_from rms s hi j)"
      unfolding unf r1 w by simp
    have B: "h' ! a = written_map s rms j (length (written_from rms s hi j)) (fst st ! a)"
      unfolding m1 fa w using written_map_step [OF Suc.prems(5) rk] by simp
    from A B l1 show ?thesis by simp
  qed
qed

lemma sync_stalls:
  assumes "sync_loop a rms s hi j st = Some st'"
  shows "\<not> (j = 2 ^ 53 \<and> 2 ^ 53 \<le> hi \<and> array_get rms (dbl (2 ^ 53 - s)) \<noteq> None)"
proof (rule sync_loop.raw_induct
    [where P = "\<lambda>a rms s hi j st st'.
        \<not> (j = 2 ^ 53 \<and> 2 ^ 53 \<le> hi \<and> array_get rms (dbl (2 ^ 53 - s)) \<noteq> None)", OF _ assms])
  fix f a rms s hi j and st st' :: "heap \<times> RoomResponse option list"
  assume IH: "\<And>a rms s hi j st st'. f a rms s hi j st = Some st'
       \<Longrightarrow> \<not> (j = 2 ^ 53 \<and> 2 ^ 53 \<le> hi \<and> array_get rms (dbl (2 ^ 53 - s)) \<noteq> None)"
    and eq: "(if j \<le> hi then
                (case array_get rms (dbl (j - s)) of
                   None \<Rightarrow> Some st
                 | Some r \<Rightarrow>
                     f a rms s hi (dbl (j + 1))
                       (store a (Ix j) (Str (room_id r)) (fst st), snd st @ [Some r]))
              else Some st) = Some st'"
  show "\<not> (j = 2 ^ 53 \<and> 2 ^ 53 \<le> hi \<and> array_get rms (dbl (2 ^ 53 - s)) \<noteq> None)"
  proof
    assume s: "j = 2 ^ 53 \<and> 2 ^ 53 \<le> hi \<and> array_get rms (dbl (2 ^ 53 - s)) \<noteq> None"
    then obtain r where r: "array_get rms (dbl (j - s)) = Some r" by auto
    have "dbl (j + 1) = 2 ^ 53" using s dbl_stalls by simp
    with eq s r have "f a rms s hi (2 ^ 53)
        (store a (Ix j) (Str (room_id r)) (fst st), snd st @ [Some r]) = Some st'"
      by simp
    from IH [OF this] s show False by simp
  qed
qed

lemma ops_loop_append:
  "ops_loop rs a (xs @ ys) st =
     (case ops_loop rs a xs st of
        Some (Next st') \<Rightarrow> ops_loop rs a ys st'
      | r \<Rightarrow> r)"
  by (induction xs arbitrary: st) (auto split: option.splits step.splits)

lemma processOps_returned:
  "(processOps t h ops = Some (Returned h' res)) =
     (ops_loop (ranges t) (length h) ops (h @ [h ! roomIndexToRoomId t], [], Ix (- 1))
        = Some (Next (h', updates res, snd (snd (the_state
             (ops_loop (ranges t) (length h) ops (h @ [h ! roomIndexToRoomId t], [], Ix (- 1)))))))
      \<and> indexToRoom res = length h)"
  by (cases res) (auto simp: processOps_def Let_def the_state_def
      split: option.splits step.splits prod.splits)

lemma stall_never_returns:
  "processOps t h [SYNC (2 ^ 53 - 1) (2 ^ 53) [Some x, Some y]] = None"
proof -
  let ?rms = "[Some x, Some y]"
  let ?a = "length h"
  let ?h0 = "h @ [h ! roomIndexToRoomId t]"
  let ?st1 = "(store ?a (Ix (2 ^ 53 - 1)) (Str (room_id x)) ?h0, [Some x])"
  have top: "dbl 9007199254740992 = 9007199254740992"
    using dbl_top by simp
  have step: "sync_loop ?a ?rms (2 ^ 53 - 1) (2 ^ 53) (2 ^ 53 - 1) (?h0, [])
      = sync_loop ?a ?rms (2 ^ 53 - 1) (2 ^ 53) (2 ^ 53) ?st1"
    by (subst sync_loop.simps) (simp add: dbl_small top array_get_def)
  have "sync_loop ?a ?rms (2 ^ 53 - 1) (2 ^ 53) (2 ^ 53) ?st1 \<noteq> Some st'" for st'
    using sync_stalls [of ?a ?rms "2 ^ 53 - 1" "2 ^ 53" "2 ^ 53" ?st1 st']
    by (auto simp: dbl_small array_get_def)
  then have "sync_loop ?a ?rms (2 ^ 53 - 1) (2 ^ 53) (2 ^ 53 - 1) (?h0, []) = None"
    unfolding step by (cases "sync_loop ?a ?rms (2 ^ 53 - 1) (2 ^ 53) (2 ^ 53) ?st1") auto
  then show ?thesis
    by (simp add: processOps_def SYNC_def process_op_def process_sync_def)
qed

text \<open>
  Claim C2, as stated: for every range \<open>[lo, hi]\<close>. It is not so for a range that
  reaches \<open>2 ^ 53\<close>: there \<open>j++\<close> no longer advances, and a SYNC over
  \<open>[2 ^ 53 - 1, 2 ^ 53]\<close> with two rooms writes the second room again and again and
  never returns.
\<close>

theorem sync_counterexample:
  "processOps example_engine [example_map]
     [SYNC (2 ^ 53 - 1) (2 ^ 53) [Some (mk_room ''x''), Some (mk_room ''y'')]] = None"
  by (rule stall_never_returns)

text \<open>
  Claim C2, amended. For a range \<open>[lo, hi]\<close> of safe integers (above \<open>- 2 ^ 53\<close>
  and below \<open>2 ^ 53\<close>) with \<open>hi - lo\<close> below \<open>2 ^ 53\<close>, and the array \<open>rms\<close>, after
  any operations \<open>ops\<close> of the batch that have returned: the call returns; the rooms
  written are those of \<open>rms\<close> that fit in the range, up to the first missing one
  (\<open>rooms_written\<close>); with \<open>n\<close> of them, the map holds the room id of \<open>rms[k]\<close> at
  \<open>lo + k\<close> for \<open>k < n\<close> and is unchanged at every other key, those of the range
  beyond the rooms provided among them; the rooms written are appended to the update
  list in order. When no element of the array is missing, \<open>n\<close> is the smaller of the
  length of the array and \<open>hi - lo + 1\<close>.
\<close>

theorem sync_populates:
  assumes "safe_index lo" and "safe_index hi" and "hi - lo < 2 ^ 53"
    and "processOps t h ops = Some (Returned h1 res1)"
  shows "returned_map (processOps t h (ops @ [SYNC lo hi rms]))
       = Some (sync_written lo rms (length (rooms_written rms lo hi)) (h1 ! indexToRoom res1))
   \<and> returned_updates (processOps t h (ops @ [SYNC lo hi rms]))
       = Some (updates res1 @ rooms_written rms lo hi)
   \<and> length (rooms_written (map Some rs) lo hi) = min (length rs) (nat (hi - lo + 1))"
proof -
  let ?a = "length h"
  let ?st0 = "(h @ [h ! roomIndexToRoomId t], [], Ix (- 1)) :: ops_state"
  from assms(4) obtain g1 where
    pre: "ops_loop (ranges t) ?a ops ?st0 = Some (Next (h1, updates res1, g1))"
    and ia: "indexToRoom res1 = ?a"
    by (auto simp: processOps_returned)
  have "same_outside ?a (fst ?st0) (step_store (Next (h1, updates res1, g1)))"
    using ops_loop_frame [OF pre] .
  then have len: "?a < length h1"
    by (simp add: same_outside_def step_store_def)
  show ?thesis
  proof (cases "lo \<le> hi + 1")
    case True
    from sync_loop_result [of ?a "(h1, updates res1)" lo hi lo rms] len assms(1-3) True
    obtain h2 where
      r: "sync_loop ?a rms lo hi lo (h1, updates res1)
            = Some (h2, updates res1 @ rooms_written rms lo hi)"
      and m: "h2 ! ?a = sync_written lo rms (length (rooms_written rms lo hi)) (h1 ! ?a)"
      unfolding rooms_written_from sync_written_map by auto
    have step: "ops_loop (ranges t) ?a (ops @ [SYNC lo hi rms]) ?st0
        = Some (Next (h2, updates res1 @ rooms_written rms lo hi, g1))"
      by (simp add: ops_loop_append pre process_op_def SYNC_def process_sync_def r)
    have A: "returned_map (processOps t h (ops @ [SYNC lo hi rms]))
        = Some (sync_written lo rms (length (rooms_written rms lo hi)) (h1 ! indexToRoom res1))"
      by (simp add: returned_map_def processOps_def step m ia)
    have B: "returned_updates (processOps t h (ops @ [SYNC lo hi rms]))
        = Some (updates res1 @ rooms_written rms lo hi)"
      by (simp add: returned_updates_def processOps_def step)
    have "rooms_written (map Some rs) lo hi = map Some (take (nat (hi + 1 - lo)) rs)"
      unfolding rooms_written_def take_map by (simp add: takeWhile_eq_all_conv)
    moreover have "hi + 1 - lo = hi - lo + 1" by simp
    ultimately have C: "length (rooms_written (map Some rs) lo hi)
        = min (length rs) (nat (hi - lo + 1))"
      by (simp only: length_map length_take)
    from A B C show ?thesis by (intro conjI)
  next
    case False
    then have e: "nat (hi + 1 - lo) = 0" and nl: "\<not> lo \<le> hi" by simp_all
    have rw: "rooms_written xs lo hi = []" for xs
      by (simp add: rooms_written_def e)
    have r: "sync_loop ?a rms lo hi lo (h1, updates res1) = Some (h1, updates res1)"
      using nl by (subst sync_loop.simps) simp
    have step: "ops_loop (ranges t) ?a (ops @ [SYNC lo hi rms]) ?st0
        = Some (Next (h1, updates res1, g1))"
      by (simp add: ops_loop_append pre process_op_def SYNC_def process_sync_def r)
    have sw: "sync_written lo rms 0 m = m" for m
      by (auto simp: sync_written_def fun_eq_iff split: key.splits)
    have A: "returned_map (processOps t h (ops @ [SYNC lo hi rms]))
        = Some (sync_written lo rms (length (rooms_written rms lo hi)) (h1 ! indexToRoom res1))"
      by (simp add: returned_map_def processOps_def step rw sw ia)
    have B: "returned_updates (processOps t h (ops @ [SYNC lo hi rms]))
        = Some (updates res1 @ rooms_written rms lo hi)"
      by (simp add: returned_updates_def processOps_def step rw)
    have C: "length (rooms_written (map Some rs) lo hi) = min (length rs) (nat (hi - lo + 1))"
      using False by (simp add: rw)
    from A B C show ?thesis by (intro conjI)
  qed
qed

theorem sync_populates_witness:
  "safe_index 2 \<and> safe_index 5 \<and> (5 :: int) - 2 < 2 ^ 53
   \<and> processOps example_engine [example_map] [DELETE 7]
       = Some (Returned [example_map, example_map(Ix 7 := None)]
                 \<lparr>indexToRoom = 1, updates = []\<rparr>)
   \<and> returned_map (processOps example_engine [example_map]
        [DELETE 7, SYNC 2 5 [Some (mk_room ''p''), Some (mk_room ''q''), None,
                             Some (mk_room ''r'')]])
       = Some (example_map(Ix 7 := None, Ix 2 \<mapsto> Str ''p'', Ix 3 \<mapsto> Str ''q''))
   \<and> returned_updates (processOps example_engine [example_map]
        [DELETE 7, SYNC 2 5 [Some (mk_room ''p''), Some (mk_room ''q''), None,
                             Some (mk_room ''r'')]])
       = Some [Some (mk_room ''p''), Some (mk_room ''q'')]
   \<and> length (rooms_written (map Some [mk_room ''p'', mk_room ''q'', mk_room ''r'']) 2 3) = 2"
proof -
  let ?rms = "[Some (mk_room ''p''), Some (mk_room ''q''), None, Some (mk_room ''r'')]"
  have s: "safe_index 2" "safe_index 5" "safe_index 3"
    by (simp_all add: safe_index_def)
  have pre: "processOps example_engine [example_map] [DELETE 7]
       = Some (Returned [example_map, example_map(Ix 7 := None)]
                 \<lparr>indexToRoom = 1, updates = []\<rparr>)"
    by (simp add: reconciler_defs)
  have w: "rooms_written ?rms 2 5 = [Some (mk_room ''p''), Some (mk_room ''q'')]"
    by (simp add: rooms_written_def)
  have m: "sync_written 2 ?rms (length (rooms_written ?rms 2 5)) (example_map(Ix 7 := None))
      = example_map(Ix 7 := None, Ix 2 \<mapsto> Str ''p'', Ix 3 \<mapsto> Str ''q'')"
  proof (rule ext)
    fix k
    show "sync_written 2 ?rms (length (rooms_written ?rms 2 5)) (example_map(Ix 7 := None)) k
        = (example_map(Ix 7 := None, Ix 2 \<mapsto> Str ''p'', Ix 3 \<mapsto> Str ''q'')) k"
    proof (cases k)
      case KNull
      then show ?thesis by (simp add: sync_written_def)
    next
      case (Ix x)
      consider "x = 2" | "x = 3" | "x < 2 \<or> 3 < x" by linarith
      then show ?thesis
        unfolding w Ix by cases (simp_all add: sync_written_def mk_room_def)
    qed
  qed
  have A: "returned_map (processOps example_engine [example_map] [DELETE 7, SYNC 2 5 ?rms])
       = Some (example_map(Ix 7 := None, Ix 2 \<mapsto> Str ''p'', Ix 3 \<mapsto> Str ''q''))"
    and B: "returned_updates (processOps example_engine [example_map]
          [DELETE 7, SYNC 2 5 ?rms])
       = Some [Some (mk_room ''p''), Some (mk_room ''q'')]"
    using sync_populates [OF s(1) s(2) _ pre, of ?rms "[]"] w m by simp_all
  have C: "length (rooms_written (map Some [mk_room ''p'', mk_room ''q'', mk_room ''r'']) 2 3)
       = 2"
    using sync_populates [OF s(1) s(3) _ pre, of "[]" "[mk_room ''p'', mk_room ''q'', mk_room ''r'']"]
    by simp
  from s pre A B C show ?thesis by simp
qed

section \<open>What the shift of an INSERT writes\<close>

lemma shifted_same: "shifted rs i i m = m"
  by (auto simp: shifted_def fun_eq_iff split: key.splits)

lemma shifted_right_step:
  "i < j \<Longrightarrow>
   shifted rs (j - 1) i (if indexInRange rs j then m(Ix j \<mapsto> obj_get m (Ix (j - 1))) else m)
     = shifted rs j i m"
  by (auto simp: shifted_def obj_get_def fun_eq_iff split: key.splits)

lemma shifted_left_step:
  "j < i \<Longrightarrow>
   shifted rs (j + 1) i (if indexInRange rs j then m(Ix j \<mapsto> obj_get m (Ix (j + 1))) else m)
     = shifted rs j i m"
proof (rule ext)
  fix k
  assume ji: "j < i"
  show "shifted rs (j + 1) i
          (if indexInRange rs j then m(Ix j \<mapsto> obj_get m (Ix (j + 1))) else m) k
      = shifted rs j i m k"
  proof (cases k)
    case KNull
    then show ?thesis by (simp add: shifted_def)
  next
    case (Ix x)
    then show ?thesis
      using ji by (cases "x = j") (auto simp: shifted_def obj_get_def)
  qed
qed

lemma shift_right_result:
  "a < length h \<Longrightarrow> safe_index i \<Longrightarrow> safe_index j \<Longrightarrow> i \<le> j \<Longrightarrow>
   \<exists>h'. shift_right rs a (Ix i) (Ix j) h = Some h' \<and> length h' = length h
        \<and> h' ! a = shifted rs j i (h ! a)"
proof (induction "nat (j - i)" arbitrary: j h)
  case 0
  then have "j = i" by simp
  then show ?case
    by (subst shift_right.simps) (simp add: shifted_same)
next
  case (Suc n)
  then have ij: "i < j" by simp
  have dec: "dbl (j - 1) = j - 1" using Suc.prems(3) by (rule safe_dec)
  let ?h1 = "if indexInRange rs j then store a (Ix j) (load h a (Ix (j - 1))) h else h"
  have unf: "shift_right rs a (Ix i) (Ix j) h = shift_right rs a (Ix i) (Ix (j - 1)) ?h1"
    using ij by (subst shift_right.simps) (simp add: dec)
  have n: "n = nat (j - 1 - i)" using Suc.hyps(2) by simp
  have a1: "a < length ?h1" using Suc.prems(1) by simp
  have s1: "safe_index (j - 1)"
    using Suc.prems(2,3) ij by (simp add: safe_index_def)
  have i1: "i \<le> j - 1" using ij by simp
  from Suc.hyps(1) [OF n a1 Suc.prems(2) s1 i1]
  obtain h' where r: "shift_right rs a (Ix i) (Ix (j - 1)) ?h1 = Some h'"
    and l: "length h' = length ?h1"
    and m: "h' ! a = shifted rs (j - 1) i (?h1 ! a)"
    by blast
  have h1a: "?h1 ! a
      = (if indexInRange rs j then (h ! a)(Ix j \<mapsto> obj_get (h ! a) (Ix (j - 1))) else h ! a)"
    using Suc.prems(1) by (simp add: load_def)
  have "h' ! a = shifted rs j i (h ! a)"
    unfolding m h1a using ij by (rule shifted_right_step)
  with r l show ?case unfolding unf by simp
qed

lemma shift_left_result:
  "a < length h \<Longrightarrow> safe_index i \<Longrightarrow> safe_index j \<Longrightarrow> j \<le> i \<Longrightarrow>
   \<exists>h'. shift_left rs a (Ix i) (Ix j) h = Some h' \<and> length h' = length h
        \<and> h' ! a = shifted rs j i (h ! a)"
proof (induction "nat (i - j)" arbitrary: j h)
  case 0
  then have "j = i" by simp
  then show ?case
    by (subst shift_left.simps) (simp add: shifted_same)
next
  case (Suc n)
  then have ij: "j < i" by simp
  have inc: "dbl (j + 1) = j + 1" using Suc.prems(3) by (rule safe_inc)
  let ?h1 = "if indexInRange rs j then store a (Ix j) (load h a (Ix (j + 1))) h else h"
  have unf: "shift_left rs a (Ix i) (Ix j) h = shift_left rs a (Ix i) (Ix (j + 1)) ?h1"
    using ij by (subst shift_left.simps) (simp add: inc)
  have n: "n = nat (i - (j + 1))" using Suc.hyps(2) by simp
  have a1: "a < length ?h1" using Suc.prems(1) by simp
  have s1: "safe_index (j + 1)"
    using Suc.prems(2,3) ij by (simp add: safe_index_def)
  have i1: "j + 1 \<le> i" using ij by simp
  from Suc.hyps(1) [OF n a1 Suc.prems(2) s1 i1]
  obtain h' where r: "shift_left rs a (Ix i) (Ix (j + 1)) ?h1 = Some h'"
    and l: "length h' = length ?h1"
    and m: "h' ! a = shifted rs (j + 1) i (?h1 ! a)"
    by blast
  have h1a: "?h1 ! a
      = (if indexInRange rs j then (h ! a)(Ix j \<mapsto> obj_get (h ! a) (Ix (j + 1))) else h ! a)"
    using Suc.prems(1) by (simp add: load_def)
  have "h' ! a = shifted rs j i (h ! a)"
    unfolding m h1a using ij by (rule shifted_left_step)
  with r l show ?case unfolding unf by simp
qed


lemma gap_after_op:
  "process_op rs a op st = Some (Next st') \<Longrightarrow>
   snd (snd st') =
     (if op_op op = ''DELETE''
      then (case index_key (op_index op) of Some k \<Rightarrow> k | None \<Rightarrow> snd (snd st))
      else snd (snd st))"
  by (cases st)
    (auto simp: process_op_def process_sync_def process_invalidate_def process_insert_def
      process_delete_def process_update_def assign_room_def
      split: if_splits option.splits field.splits list.splits prod.splits)

section \<open>The gap outlives the INSERT that uses it\<close>







section \<open>Operations that are skipped, and operations that throw\<close>

lemma sync_loop_returns:
  "safe_index hi \<Longrightarrow> - (2 ^ 53) < j \<Longrightarrow> \<exists>r. sync_loop a rms s hi j st = Some r"
proof (induction "nat (hi + 1 - j)" arbitrary: j st)
  case 0
  then have "\<not> j \<le> hi" by simp
  then show ?case by (subst sync_loop.simps) simp
next
  case (Suc n)
  then have jhi: "j \<le> hi" by simp
  have "safe_index j" using jhi Suc.prems by (simp add: safe_index_def)
  then have inc: "dbl (j + 1) = j + 1" by (rule safe_inc)
  show ?case
  proof (cases "array_get rms (dbl (j - s))")
    case None
    with jhi show ?thesis by (subst sync_loop.simps) simp
  next
    case (Some r)
    have n: "n = nat (hi + 1 - (j + 1))" using Suc.hyps(2) by simp
    have "- (2 ^ 53) < j + 1" using Suc.prems(2) by simp
    from Suc.hyps(1) [OF n Suc.prems(1) this]
    show ?thesis using jhi Some by (subst sync_loop.simps) (simp add: inc)
  qed
qed

lemma invalidate_loop_returns:
  "safe_index hi \<Longrightarrow> - (2 ^ 53) < j \<Longrightarrow> \<exists>h'. invalidate_loop a hi j h = Some h'"
proof (induction "nat (hi + 1 - j)" arbitrary: j h)
  case 0
  then have "\<not> j \<le> hi" by simp
  then show ?case by (subst invalidate_loop.simps) simp
next
  case (Suc n)
  then have jhi: "j \<le> hi" by simp
  have "safe_index j" using jhi Suc.prems by (simp add: safe_index_def)
  then have inc: "dbl (j + 1) = j + 1" by (rule safe_inc)
  have n: "n = nat (hi + 1 - (j + 1))" using Suc.hyps(2) by simp
  have "- (2 ^ 53) < j + 1" using Suc.prems(2) by simp
  from Suc.hyps(1) [OF n Suc.prems(1) this]
  show ?case using jhi by (subst invalidate_loop.simps) (simp add: inc)
qed

lemma process_sync_returns:
  assumes "declared op"
  shows "\<exists>st'. process_sync a op st = Some (Next st')"
proof -
  obtain h u g where st: "st = (h, u, g)" by (cases st) auto
  show ?thesis
  proof (cases "op_range op")
    case Absent
    then show ?thesis by (simp add: process_sync_def st)
  next
    case Null
    with assms show ?thesis by (simp add: declared_def safe_range_def)
  next
    case (Val rg)
    show ?thesis
    proof (cases "op_rooms op")
      case Absent
      then show ?thesis by (simp add: process_sync_def st)
    next
      case Null
      with assms show ?thesis by (simp add: declared_def)
    next
      case rooms: (Val rms)
      show ?thesis
      proof (cases rg)
        case Nil
        with Val rooms show ?thesis by (simp add: process_sync_def st)
      next
        case (Cons lo rest)
        show ?thesis
        proof (cases rest)
          case Nil
          with Val rooms Cons show ?thesis by (simp add: process_sync_def st)
        next
          case rest: (Cons hi more)
          from assms Val Cons rest have "safe_index lo" and "safe_index hi"
            by (simp_all add: declared_def safe_range_def)
          then obtain r where "sync_loop a rms lo hi lo (h, u) = Some r"
            using sync_loop_returns [of hi lo a rms lo "(h, u)"]
            by (auto simp: safe_index_def)
          with Val rooms Cons rest show ?thesis
            by (cases r) (simp add: process_sync_def st)
        qed
      qed
    qed
  qed
qed

lemma process_invalidate_returns:
  assumes "declared op"
  shows "\<exists>st'. process_invalidate a op st = Some (Next st')"
proof -
  obtain h u g where st: "st = (h, u, g)" by (cases st) auto
  show ?thesis
  proof (cases "op_range op")
    case Absent
    then show ?thesis by (simp add: process_invalidate_def st)
  next
    case Null
    with assms show ?thesis by (simp add: declared_def safe_range_def)
  next
    case (Val rg)
    show ?thesis
    proof (cases rg)
      case Nil
      with Val show ?thesis by (simp add: process_invalidate_def st)
    next
      case (Cons lo rest)
      show ?thesis
      proof (cases rest)
        case Nil
        with Val Cons show ?thesis by (simp add: process_invalidate_def st)
      next
        case rest: (Cons hi more)
        from assms Val Cons rest have "safe_index lo" and "safe_index hi"
          by (simp_all add: declared_def safe_range_def)
        then obtain h' where "invalidate_loop a hi lo h = Some h'"
          using invalidate_loop_returns [of hi lo a h]
          by (auto simp: safe_index_def)
        with Val Cons rest show ?thesis
          by (simp add: process_invalidate_def st)
      qed
    qed
  qed
qed

lemma process_insert_returns:
  assumes "declared op" and "safe_key (snd (snd st))" and "a < length (fst st)"
  shows "\<exists>st'. process_insert rs a op st = Some (Next st')"
proof -
  obtain h u g where st: "st = (h, u, g)" by (cases st) auto
  from assms(2) obtain d where g: "g = Ix d" and sd: "safe_index d"
    by (cases g) (auto simp: st safe_key_def)
  have len: "a < length h" using assms(3) by (simp add: st)
  show ?thesis
  proof (cases "op_index op")
    case Absent
    then show ?thesis by (simp add: process_insert_def st)
  next
    case Null
    with assms(1) show ?thesis by (simp add: declared_def safe_field_def)
  next
    case (Val i)
    with assms(1) have si: "safe_index i" by (simp add: declared_def safe_field_def)
    show ?thesis
    proof (cases "op_room op")
      case Absent
      with Val show ?thesis by (simp add: process_insert_def st)
    next
      case Null
      with assms(1) show ?thesis by (simp add: declared_def)
    next
      case room: (Val r)
      have sh: "\<exists>h1. (if d > i then shift_right rs a (Ix i) (Ix d) h
                      else if d < i then shift_left rs a (Ix i) (Ix d) h else Some h) = Some h1"
      proof (cases "i \<le> d")
        case True
        from shift_right_result [OF len si sd True, of rs] True
        show ?thesis by auto
      next
        case False
        then have "d \<le> i" by simp
        from shift_left_result [OF len si sd this, of rs] False
        show ?thesis by auto
      qed
      then obtain h1 where
        "(if d > i then shift_right rs a (Ix i) (Ix d) h
          else if d < i then shift_left rs a (Ix i) (Ix d) h else Some h) = Some h1"
        by blast
      with Val room show ?thesis
        by (auto simp: process_insert_def st g assign_room_def split: if_splits)
    qed
  qed
qed

lemma process_op_returns:
  assumes "declared op" and "safe_key (snd (snd st))" and "a < length (fst st)"
  shows "\<exists>st'. process_op rs a op st = Some (Next st')
            \<and> safe_key (snd (snd st')) \<and> a < length (fst st')"
proof -
  have del: "\<exists>st'. process_delete a op st = Some (Next st')"
    by (cases st) (auto simp: process_delete_def split: option.splits)
  have upd: "\<exists>st'. process_update op st = Some (Next st')"
    by (cases st) (auto simp: process_update_def)
  have "\<exists>st'. process_op rs a op st = Some (Next st')"
    using process_sync_returns [OF assms(1), of a st]
      process_invalidate_returns [OF assms(1), of a st]
      process_insert_returns [OF assms, of rs] del upd
    by (cases st) (auto simp: process_op_def)
  then obtain st' where r: "process_op rs a op st = Some (Next st')" by blast
  have "same_outside a (fst st) (step_store (Next st'))"
    using r by (rule process_op_frame)
  then have len: "a < length (fst st')"
    using assms(3) by (simp add: same_outside_def step_store_def)
  have "safe_key (snd (snd st'))"
    using gap_after_op [OF r] assms(1,2)
    by (cases "op_index op") (auto simp: declared_def safe_field_def safe_key_def)
  with r len show ?thesis by blast
qed

lemma ops_loop_returns:
  "list_all declared ops \<Longrightarrow> safe_key (snd (snd st)) \<Longrightarrow> a < length (fst st)
   \<Longrightarrow> \<exists>st'. ops_loop rs a ops st = Some (Next st')"
proof (induction ops arbitrary: st)
  case Nil
  show ?case by (cases st) simp
next
  case (Cons op ops)
  from Cons.prems have "declared op" and rest: "list_all declared ops" by simp_all
  from process_op_returns [OF this(1) Cons.prems(2,3), of rs]
  obtain st1 where r: "process_op rs a op st = Some (Next st1)"
    and g: "safe_key (snd (snd st1))" and l: "a < length (fst st1)"
    by blast
  from Cons.IH [OF rest g l] show ?case by (simp add: r)
qed








section \<open>The sync loop: position, backoff, cancellation, sticky parameters\<close>

lemma entered_state:
  "entered t h = Some s \<Longrightarrow>
   status (this s) = InitialSync \<and> pos s = None \<and> backoffCounter s = 0 \<and> effects s = []"
  by (auto simp: entered_def start_def split: if_splits)

lemma outside_fields [simp]:
  "pos (outside cs s) = pos s"
  "hp (outside cs s) = hp s"
  "backoffCounter (outside cs s) = backoffCounter s"
  "effects (outside cs s) = effects s"
  "this (outside cs s) = foldl apply_call (this s) cs"
  by (simp_all add: outside_def)

lemma outside_nil [simp]: "outside [] s = s"
  by (simp add: outside_def)

lemma issue_request_fields:
  "pos (issue_request sid ev s) = pos s"
  "backoffCounter (issue_request sid ev s) = backoffCounter s"
  "hp (issue_request sid ev s) = hp s"
  "effects (issue_request sid ev s)
     = effects s @ [Sleep 100, Request (request_body sid (this s)) (pos s)]"
  "this (issue_request sid ev s) = foldl apply_call (this s) (in_delay ev @ in_flight ev)"
  by (simp_all add: issue_request_def do_effect_def Let_def)

lemma issue_request_quiet:
  "quiet ev \<Longrightarrow> issue_request sid ev s
     = s\<lparr>effects := effects s @ [Sleep 100, Request (request_body sid (this s)) (pos s)]\<rparr>"
  by (simp add: issue_request_def do_effect_def quiet_def Let_def)

lemma issued_append [simp]: "issued (xs @ ys) = issued xs @ issued ys"
  by (induction xs rule: issued.induct) simp_all

lemma sleeps_append [simp]: "sleeps (xs @ ys) = sleeps xs @ sleeps ys"
  by (induction xs rule: sleeps.induct) simp_all





lemma processResponse_declared:
  assumes "list_all declared (resp_ops resp)"
  shows "\<exists>h'. processResponse t h resp = Some (Handled h')"
proof -
  let ?st0 = "(h @ [h ! roomIndexToRoomId t], [], Ix (- 1)) :: ops_state"
  have "safe_key (snd (snd ?st0))" by (simp add: safe_key_def safe_index_def)
  moreover have "length h < length (fst ?st0)" by simp
  ultimately obtain st' where
    "ops_loop (ranges t) (length h) (resp_ops resp) ?st0 = Some (Next st')"
    using ops_loop_returns [OF assms, of ?st0 "length h" "ranges t"] by blast
  then show ?thesis
    by (cases st') (simp add: processResponse_def processOps_def)
qed



lemma only_stops:
  "set cs \<subseteq> {Stop} \<Longrightarrow>
   (status (foldl apply_call t cs) = Stopped) = (status t = Stopped \<or> Stop \<in> set cs)"
proof (induction cs arbitrary: t)
  case Nil
  then show ?case by simp
next
  case (Cons c cs)
  then have c: "c = Stop" and rest: "set cs \<subseteq> {Stop}" by auto
  have "status (stop t) = Stopped" by (simp add: stop_def)
  with Cons.IH [OF rest, of "stop t"] show ?case by (simp add: c)
qed

text \<open>
  Claim C8. A pass whose request fails with a cancellation ends in the state in
  which the request settled: the position and the failure counter are those of the
  start of the pass, and the only effects are the fixed delay and the request, with
  no backoff sleep. The status is then what the calls made during the delay and the
  request have left; when they are calls of \<open>stop()\<close> alone, it is \<open>Stopped\<close> exactly
  when it was before or \<open>stop()\<close> was called. When the status is then \<open>Stopped\<close> the
  loop returns at once, whatever events would follow; otherwise the loop goes on
  from that state, and the pass that follows issues its request after the fixed
  delay alone, with the same position.
\<close>

theorem cancellation:
  assumes "cancelled ev"
  shows "syncLoop_body handler sid ev s =
           (if status (this (issue_request sid ev s)) = Stopped then Return else Continue,
            issue_request sid ev s)
     \<and> pos (issue_request sid ev s) = pos s
     \<and> backoffCounter (issue_request sid ev s) = backoffCounter s
     \<and> effects (issue_request sid ev s)
         = effects s @ [Sleep 100, Request (request_body sid (this s)) (pos s)]
     \<and> this (issue_request sid ev s) = foldl apply_call (this s) (in_delay ev @ in_flight ev)
     \<and> (set (in_delay ev @ in_flight ev) \<subseteq> {Stop} \<longrightarrow>
          (status (this (issue_request sid ev s)) = Stopped)
            = (status (this s) = Stopped \<or> Stop \<in> set (in_delay ev @ in_flight ev)))
     \<and> (status (this s) \<noteq> Stopped \<longrightarrow>
          syncLoop handler sid (ev # evs) s =
            (if status (this (issue_request sid ev s)) = Stopped
             then (Return, issue_request sid ev s)
             else syncLoop handler sid evs (issue_request sid ev s)))
     \<and> effects (issue_request sid ev' (issue_request sid ev s))
         = effects s @ [Sleep 100, Request (request_body sid (this s)) (pos s),
                        Sleep 100,
                        Request (request_body sid (this (issue_request sid ev s))) (pos s)]"
proof -
  obtain err where r: "response ev = Inl err" and n: "err_name err = ''AbortError''"
    using assms by (cases "response ev") (auto simp: cancelled_def)
  have body: "syncLoop_body handler sid ev s =
           (if status (this (issue_request sid ev s)) = Stopped then Return else Continue,
            issue_request sid ev s)"
    by (simp add: syncLoop_body_def r n catch_block_def Let_def)
  have st: "(status (this (issue_request sid ev s)) = Stopped)
            = (status (this s) = Stopped \<or> Stop \<in> set (in_delay ev @ in_flight ev))"
    if "set (in_delay ev @ in_flight ev) \<subseteq> {Stop}"
    using only_stops [OF that, of "this s"] by (simp only: issue_request_fields)
  have loop: "syncLoop handler sid (ev # evs) s =
            (if status (this (issue_request sid ev s)) = Stopped
             then (Return, issue_request sid ev s)
             else syncLoop handler sid evs (issue_request sid ev s))"
    if "status (this s) \<noteq> Stopped"
    using that by (simp add: body)
  have again: "effects (issue_request sid ev' (issue_request sid ev s))
         = effects s @ [Sleep 100, Request (request_body sid (this s)) (pos s),
                        Sleep 100,
                        Request (request_body sid (this (issue_request sid ev s))) (pos s)]"
    by (simp add: issue_request_fields)
  show ?thesis
    using body st loop again issue_request_fields [of sid ev s] by blast
qed

theorem cancellation_witness:
  "cancelled (error_event ''AbortError'')
   \<and> cancelled ((error_event ''AbortError'')\<lparr>in_flight := [Stop]\<rparr>)
   \<and> fst (syncLoop_body processResponse ''s'' (error_event ''AbortError'')
        (example_state\<lparr>pos := Some 4, backoffCounter := 3\<rparr>)) = Continue
   \<and> effects (snd (syncLoop_body processResponse ''s'' (error_event ''AbortError'')
        (example_state\<lparr>pos := Some 4, backoffCounter := 3\<rparr>)))
       = [Sleep 100, Request (request_body ''s'' (this example_state)) (Some 4)]
   \<and> backoffCounter (snd (syncLoop_body processResponse ''s'' (error_event ''AbortError'')
        (example_state\<lparr>pos := Some 4, backoffCounter := 3\<rparr>))) = 3
   \<and> set (in_delay ((error_event ''AbortError'')\<lparr>in_flight := [Stop]\<rparr>)
          @ in_flight ((error_event ''AbortError'')\<lparr>in_flight := [Stop]\<rparr>)) \<subseteq> {Stop}
   \<and> status (this (issue_request ''s'' ((error_event ''AbortError'')\<lparr>in_flight := [Stop]\<rparr>)
        example_state)) = Stopped
   \<and> status (this example_state) \<noteq> Stopped
   \<and> fst (syncLoop processResponse ''s''
        [(error_event ''AbortError'')\<lparr>in_flight := [Stop]\<rparr>, ok_event 1] example_state)
       = Return
   \<and> effects (snd (syncLoop processResponse ''s''
        [(error_event ''AbortError'')\<lparr>in_flight := [Stop]\<rparr>, ok_event 1] example_state))
       = [Sleep 100, Request (request_body ''s'' (this example_state)) None]"
proof -
  let ?stop = "(error_event ''AbortError'')\<lparr>in_flight := [Stop]\<rparr>"
  let ?s = "example_state\<lparr>pos := Some 4, backoffCounter := 3\<rparr>"
  have a: "cancelled (error_event ''AbortError'')"
    by (simp add: cancelled_def error_event_def)
  have b: "cancelled ?stop"
    by (simp add: cancelled_def error_event_def)
  have c: "status (this example_state) \<noteq> Stopped"
    by (simp add: example_state_def)
  have d: "set (in_delay ?stop @ in_flight ?stop) \<subseteq> {Stop}"
    by (simp add: error_event_def)
  have q: "status (this (issue_request ''s'' (error_event ''AbortError'') ?s)) \<noteq> Stopped"
    by (simp add: issue_request_fields error_event_def example_state_def)
  have f: "this ?s = this example_state" "pos ?s = Some 4" "backoffCounter ?s = 3"
    "effects ?s = []" "effects example_state = []" "pos example_state = None"
    by (simp_all add: example_state_def)
  note first = cancellation [OF a, of processResponse "''s''" ?s]
  note second = cancellation [OF b, of processResponse "''s''" example_state "[ok_event 1]"]
  have A: "fst (syncLoop_body processResponse ''s'' (error_event ''AbortError'') ?s) = Continue"
    using first q by simp
  have B: "effects (snd (syncLoop_body processResponse ''s'' (error_event ''AbortError'') ?s))
       = [Sleep 100, Request (request_body ''s'' (this example_state)) (Some 4)]"
    and C: "backoffCounter (snd (syncLoop_body processResponse ''s''
              (error_event ''AbortError'') ?s)) = 3"
    using first f by simp_all
  have d2: "Stop \<in> set (in_delay ?stop @ in_flight ?stop)"
    by (simp add: error_event_def)
  have D: "status (this (issue_request ''s'' ?stop example_state)) = Stopped"
    using second d d2 by blast
  have E: "fst (syncLoop processResponse ''s'' [?stop, ok_event 1] example_state) = Return"
    and F: "effects (snd (syncLoop processResponse ''s'' [?stop, ok_event 1] example_state))
       = [Sleep 100, Request (request_body ''s'' (this example_state)) None]"
    using second c D f by simp_all
  from a b A B C d D c E F show ?thesis by blast
qed

lemma bump_min: "bump c = min (Suc c) 5"
  by (simp add: bump_def)

lemma bump_pow: "(bump ^^ n) c = (if n = 0 then c else min (c + n) 5)"
  by (induction n) (auto simp: bump_def)

lemma failed_body:
  assumes "failed ev" and "quiet ev"
  shows "syncLoop_body handler sid ev s =
     (Continue, s\<lparr>backoffCounter := bump (backoffCounter s),
                  effects := effects s @ [Sleep 100, Request (request_body sid (this s)) (pos s),
                                          Sleep (2 ^ bump (backoffCounter s) * 1000)]\<rparr>)"
proof -
  obtain err where r: "response ev = Inl err" and n: "err_name err \<noteq> ''AbortError''"
    using assms(1) by (auto simp: failed_def split: sum.splits)
  have nb: "in_backoff ev = []" using assms(2) by (simp add: quiet_def)
  show ?thesis
    using n nb
    by (simp add: syncLoop_body_def r issue_request_quiet [OF assms(2)] catch_block_def
        do_effect_def Let_def)
qed

lemma cancelled_body:
  assumes "cancelled ev" and "quiet ev" and "status (this s) \<noteq> Stopped"
  shows "syncLoop_body handler sid ev s =
     (Continue, s\<lparr>effects := effects s
                     @ [Sleep 100, Request (request_body sid (this s)) (pos s)]\<rparr>)"
proof -
  obtain err where r: "response ev = Inl err" and n: "err_name err = ''AbortError''"
    using assms(1) by (auto simp: cancelled_def split: sum.splits)
  show ?thesis
    using n assms(3)
    by (simp add: syncLoop_body_def r issue_request_quiet [OF assms(2)] catch_block_def Let_def)
qed

lemma not_both: "cancelled ev \<Longrightarrow> \<not> failed ev"
  by (auto simp: cancelled_def failed_def split: sum.splits)

lemma backoff_run:
  "status (this s) \<noteq> Stopped
   \<Longrightarrow> list_all (\<lambda>ev. (failed ev \<or> cancelled ev) \<and> quiet ev) evs
   \<Longrightarrow> bump (backoffCounter s) = min (Suc k) 5
   \<Longrightarrow> syncLoop handler sid evs s =
        (Continue,
         s\<lparr>backoffCounter := (bump ^^ length (filter failed evs)) (backoffCounter s),
            effects := effects s
              @ backoff_effects (request_body sid (this s)) (pos s) k evs\<rparr>)"
proof (induction evs arbitrary: s k)
  case Nil
  then show ?case by simp
next
  case (Cons ev evs)
  from Cons.prems(2) have q: "quiet ev" and fc: "failed ev \<or> cancelled ev"
    and rest: "list_all (\<lambda>ev. (failed ev \<or> cancelled ev) \<and> quiet ev) evs"
    by simp_all
  show ?case
  proof (cases "failed ev")
    case True
    let ?s' = "s\<lparr>backoffCounter := bump (backoffCounter s),
                  effects := effects s @ [Sleep 100, Request (request_body sid (this s)) (pos s),
                                          Sleep (2 ^ bump (backoffCounter s) * 1000)]\<rparr>"
    have b: "syncLoop_body handler sid ev s = (Continue, ?s')"
      using True q by (rule failed_body)
    have st: "status (this ?s') \<noteq> Stopped" using Cons.prems(1) by simp
    have inv: "bump (backoffCounter ?s') = min (Suc (Suc k)) 5"
      using Cons.prems(3) by (simp add: bump_def)
    show ?thesis
      using Cons.prems(1) Cons.prems(3) True b Cons.IH [OF st rest inv]
      by (simp add: funpow_swap1)
  next
    case False
    with fc have c: "cancelled ev" by simp
    let ?s' = "s\<lparr>effects := effects s
                     @ [Sleep 100, Request (request_body sid (this s)) (pos s)]\<rparr>"
    have b: "syncLoop_body handler sid ev s = (Continue, ?s')"
      using c q Cons.prems(1) by (rule cancelled_body)
    have st: "status (this ?s') \<noteq> Stopped" using Cons.prems(1) by simp
    have inv: "bump (backoffCounter ?s') = min (Suc k) 5"
      using Cons.prems(3) by simp
    show ?thesis
      using Cons.prems(1) False b Cons.IH [OF st rest inv]
      by simp
  qed
qed

lemma failed_sleeps:
  "list_all failed evs \<Longrightarrow>
   sleeps (backoff_effects b p k evs)
     = concat (map (\<lambda>j. [100, 2 ^ min (k + j) 5 * 1000]) [Suc 0..<Suc (length evs)])"
proof (induction evs arbitrary: k)
  case Nil
  then show ?case by simp
next
  case (Cons ev evs)
  then have f: "failed ev" and rest: "list_all failed evs" by simp_all
  have up: "[Suc 0..<Suc (Suc n)] = Suc 0 # map Suc [Suc 0..<Suc n]" for n
    by (simp add: upt_conv_Cons map_Suc_upt del: upt_Suc)
  have "sleeps (backoff_effects b p k (ev # evs))
      = [100, 2 ^ min (Suc k) 5 * 1000] @ sleeps (backoff_effects b p (Suc k) evs)"
    using f by simp
  also have "\<dots> = [100, 2 ^ min (Suc k) 5 * 1000]
      @ concat (map (\<lambda>j. [100, 2 ^ min (Suc k + j) 5 * 1000]) [Suc 0..<Suc (length evs)])"
    by (simp only: Cons.IH [OF rest])
  also have "\<dots> = concat (map (\<lambda>j. [100, 2 ^ min (k + j) 5 * 1000])
                             [Suc 0..<Suc (length (ev # evs))])"
    by (simp only: length_Cons up list.map concat.simps map_map comp_def) simp
  finally show ?case .
qed

text \<open>
  Claim C7, as stated: the \<open>k\<close>-th failure of a run of consecutive failures sleeps
  \<open>2 ^ min k 5\<close> seconds. It is not so when a cancelled request comes between two
  failures: the cancellation neither counts nor resets the counter, and the failure
  after it, the first of its run, sleeps 4 seconds, not 2.
\<close>

theorem backoff_counterexample:
  "sleeps (effects (snd (syncLoop processResponse ''s''
      [error_event ''E'', error_event ''AbortError'', error_event ''E''] example_state)))
   = [100, 2000, 100, 100, 4000]"
  by (simp add: example_state_def error_event_def example_engine_def syncLoop_body_def
      issue_request_def catch_block_def do_effect_def bump_def Let_def)

text \<open>
  Claim C7, amended. The counter holds the number of failures (errors other than a
  cancellation) since the last answered request, or since the loop was entered, with
  its cap at 5; a cancelled request in between neither counts nor resets it. In a run
  of failed and cancelled requests every pass sleeps the fixed 100 ms and issues its
  request with the unchanged position; a failed one then sleeps \<open>2 ^ min (c + j) 5\<close>
  seconds, when it is the \<open>j\<close>-th failure of the run and the counter was \<open>c\<close> at its
  start; a cancelled one does not sleep again. With the counter at zero and failures
  alone, the sleeps after the requests are 2, 4, 8, 16, 32, 32, 32, ... seconds. The
  loop is entered with the counter at zero. An answered request sets the counter to
  zero before its response is handled: when the handler returns, the counter is zero
  after the pass, so the failure that follows sleeps 2 seconds again; when the
  handler throws an error other than a cancellation, that pass is a failure, sleeps
  2 seconds and leaves the counter at one.
\<close>

theorem backoff_sequence:
  "(status (this s) \<noteq> Stopped
      \<and> list_all (\<lambda>ev. (failed ev \<or> cancelled ev) \<and> quiet ev) evs \<longrightarrow>
      syncLoop handler sid evs s =
        (Continue,
         s\<lparr>backoffCounter :=
              (if filter failed evs = [] then backoffCounter s
               else min (backoffCounter s + length (filter failed evs)) 5),
            effects := effects s
              @ backoff_effects (request_body sid (this s)) (pos s) (backoffCounter s) evs\<rparr>))
   \<and> (list_all failed evs \<longrightarrow>
        sleeps (backoff_effects b p 0 evs)
          = concat (map (\<lambda>j. [100, 2 ^ min j 5 * 1000]) [1..<Suc (length evs)]))
   \<and> (entered t h = Some s0 \<longrightarrow> backoffCounter s0 = 0)
   \<and> (response ev = Inr resp
        \<and> handler (this (issue_request sid ev s)) (hp s) resp = Some (Handled h')
        \<longrightarrow> backoffCounter (snd (syncLoop_body handler sid ev s)) = 0)
   \<and> (response ev = Inr resp
        \<and> handler (this (issue_request sid ev s)) (hp s) resp = Some (Threw err h')
        \<and> err_name err \<noteq> ''AbortError''
        \<longrightarrow> backoffCounter (snd (syncLoop_body handler sid ev s)) = 1
          \<and> sleeps (effects (snd (syncLoop_body handler sid ev s)))
              = sleeps (effects s) @ [100, 2000])"
proof -
  have run: "syncLoop handler sid evs s =
        (Continue,
         s\<lparr>backoffCounter :=
              (if filter failed evs = [] then backoffCounter s
               else min (backoffCounter s + length (filter failed evs)) 5),
            effects := effects s
              @ backoff_effects (request_body sid (this s)) (pos s) (backoffCounter s) evs\<rparr>)"
    if "status (this s) \<noteq> Stopped"
      and "list_all (\<lambda>ev. (failed ev \<or> cancelled ev) \<and> quiet ev) evs"
    using backoff_run [OF that bump_min, of handler sid]
    by (simp add: bump_pow)
  have closed: "sleeps (backoff_effects b p 0 evs)
          = concat (map (\<lambda>j. [100, 2 ^ min j 5 * 1000]) [1..<Suc (length evs)])"
    if "list_all failed evs"
    using failed_sleeps [OF that, of b p 0] by simp
  have enter: "backoffCounter s0 = 0" if "entered t h = Some s0"
    using entered_state [OF that] by simp
  have reset: "backoffCounter (snd (syncLoop_body handler sid ev s)) = 0"
    if "response ev = Inr resp"
      and "handler (this (issue_request sid ev s)) (hp s) resp = Some (Handled h')"
    using that by (simp add: syncLoop_body_def Let_def issue_request_fields)
  have thrown: "backoffCounter (snd (syncLoop_body handler sid ev s)) = 1
          \<and> sleeps (effects (snd (syncLoop_body handler sid ev s)))
              = sleeps (effects s) @ [100, 2000]"
    if "response ev = Inr resp"
      and "handler (this (issue_request sid ev s)) (hp s) resp = Some (Threw err h')"
      and "err_name err \<noteq> ''AbortError''"
    using that
    by (simp add: syncLoop_body_def Let_def issue_request_fields catch_block_def
        do_effect_def bump_def)
  from run closed enter reset thrown show ?thesis by blast
qed

theorem backoff_sequence_witness:
  "status (this example_state) \<noteq> Stopped
   \<and> list_all (\<lambda>ev. (failed ev \<or> cancelled ev) \<and> quiet ev)
        [error_event ''E'', error_event ''E'', error_event ''E'', error_event ''E'',
         error_event ''E'', error_event ''E'', error_event ''E'']
   \<and> sleeps (effects (snd (syncLoop processResponse ''s''
        [error_event ''E'', error_event ''E'', error_event ''E'', error_event ''E'',
         error_event ''E'', error_event ''E'', error_event ''E''] example_state)))
       = [100, 2000, 100, 4000, 100, 8000, 100, 16000, 100, 32000, 100, 32000, 100, 32000]
   \<and> backoffCounter (snd (syncLoop processResponse ''s''
        [error_event ''E'', error_event ''E'', error_event ''E'', error_event ''E'',
         error_event ''E'', error_event ''E'', error_event ''E''] example_state)) = 5
   \<and> list_all (\<lambda>ev. (failed ev \<or> cancelled ev) \<and> quiet ev)
        [error_event ''E'', error_event ''AbortError'', error_event ''E'']
   \<and> sleeps (effects (snd (syncLoop processResponse ''s''
        [error_event ''E'', error_event ''AbortError'', error_event ''E'']
        (example_state\<lparr>backoffCounter := 2\<rparr>))))
       = [100, 8000, 100, 100, 16000]
   \<and> list_all failed [error_event ''E'', error_event ''E'', error_event ''E'']
   \<and> sleeps (backoff_effects (request_body ''s'' example_engine) None 0
        [error_event ''E'', error_event ''E'', error_event ''E''])
       = [100, 2000, 100, 4000, 100, 8000]
   \<and> entered (example_engine\<lparr>status := Stopped\<rparr>) [example_map]
       = Some \<lparr>this = example_engine\<lparr>status := InitialSync\<rparr>, hp = [example_map],
               pos = None, backoffCounter = 0, effects = []\<rparr>
   \<and> response (ok_event 1) = Inr \<lparr>resp_ops = [DELETE 7, INSERT 0 (mk_room ''g'')],
                                   resp_counts = [9], resp_pos = 1\<rparr>
   \<and> (\<exists>h'. processResponse
          (this (issue_request ''s'' (ok_event 1) (example_state\<lparr>backoffCounter := 5\<rparr>)))
          (hp (example_state\<lparr>backoffCounter := 5\<rparr>))
          \<lparr>resp_ops = [DELETE 7, INSERT 0 (mk_room ''g'')], resp_counts = [9], resp_pos = 1\<rparr>
        = Some (Handled h'))
   \<and> backoffCounter (snd (syncLoop_body processResponse ''s'' (ok_event 1)
        (example_state\<lparr>backoffCounter := 5\<rparr>))) = 0
   \<and> response (null_room_event 1)
       = Inr \<lparr>resp_ops = [null_room_insert], resp_counts = [9], resp_pos = 1\<rparr>
   \<and> processResponse
        (this (issue_request ''s'' (null_room_event 1) (example_state\<lparr>backoffCounter := 5\<rparr>)))
        (hp (example_state\<lparr>backoffCounter := 5\<rparr>))
        \<lparr>resp_ops = [null_room_insert], resp_counts = [9], resp_pos = 1\<rparr>
       = Some (Threw TypeError [example_map, example_map])
   \<and> err_name TypeError \<noteq> ''AbortError''
   \<and> backoffCounter (snd (syncLoop_body processResponse ''s'' (null_room_event 1)
        (example_state\<lparr>backoffCounter := 5\<rparr>))) = 1
   \<and> sleeps (effects (snd (syncLoop_body processResponse ''s'' (null_room_event 1)
        (example_state\<lparr>backoffCounter := 5\<rparr>)))) = [100, 2000]"
proof -
  let ?seven = "[error_event ''E'', error_event ''E'', error_event ''E'', error_event ''E'',
         error_event ''E'', error_event ''E'', error_event ''E'']"
  let ?mixed = "[error_event ''E'', error_event ''AbortError'', error_event ''E'']"
  let ?three = "[error_event ''E'', error_event ''E'', error_event ''E'']"
  let ?s2 = "example_state\<lparr>backoffCounter := 2\<rparr>"
  let ?s5 = "example_state\<lparr>backoffCounter := 5\<rparr>"
  let ?resp = "\<lparr>resp_ops = [DELETE 7, INSERT 0 (mk_room ''g'')], resp_counts = [9],
                resp_pos = 1\<rparr>"
  let ?null = "\<lparr>resp_ops = [null_room_insert], resp_counts = [9], resp_pos = 1\<rparr>"
  have f: "failed (error_event ''E'')" "\<not> failed (error_event ''AbortError'')"
    "cancelled (error_event ''AbortError'')" "quiet (error_event nm)" for nm
    by (simp_all add: failed_def cancelled_def quiet_def error_event_def)
  have a: "status (this example_state) \<noteq> Stopped" "status (this ?s2) \<noteq> Stopped"
    by (simp_all add: example_state_def)
  have b: "list_all (\<lambda>ev. (failed ev \<or> cancelled ev) \<and> quiet ev) ?seven"
    and c: "list_all (\<lambda>ev. (failed ev \<or> cancelled ev) \<and> quiet ev) ?mixed"
    and d: "list_all failed ?three"
    by (simp_all add: f)
  have st: "backoffCounter example_state = 0" "effects example_state = []"
    "backoffCounter ?s2 = 2" "effects ?s2 = []" "effects ?s5 = []"
    "hp ?s5 = [example_map]"
    by (simp_all add: example_state_def)
  have e: "entered (example_engine\<lparr>status := Stopped\<rparr>) [example_map]
       = Some \<lparr>this = example_engine\<lparr>status := InitialSync\<rparr>, hp = [example_map],
               pos = None, backoffCounter = 0, effects = []\<rparr>"
    by (simp add: entered_def start_def)
  have r: "response (ok_event 1) = Inr ?resp"
    by (simp add: ok_event_def)
  have "list_all declared (resp_ops ?resp)"
    by (simp add: declared_def safe_range_def safe_field_def safe_index_def DELETE_def
        INSERT_def)
  from processResponse_declared [OF this]
  obtain H where h: "processResponse (this (issue_request ''s'' (ok_event 1) ?s5)) (hp ?s5)
      ?resp = Some (Handled H)"
    by blast
  have rn: "response (null_room_event 1) = Inr ?null"
    by (simp add: null_room_event_def)
  have t: "processResponse (this (issue_request ''s'' (null_room_event 1) ?s5)) (hp ?s5) ?null
       = Some (Threw TypeError [example_map, example_map])"
    by (simp add: processResponse_def processOps_def null_room_insert_def example_state_def
        example_engine_def example_map_def issue_request_fields null_room_event_def
        process_op_def process_insert_def assign_room_def load_def obj_get_def)
  have n: "err_name TypeError \<noteq> ''AbortError''"
    by (simp add: TypeError_def)
  have run7: "syncLoop processResponse ''s'' ?seven example_state =
        (Continue,
         example_state\<lparr>backoffCounter :=
              (if filter failed ?seven = [] then backoffCounter example_state
               else min (backoffCounter example_state + length (filter failed ?seven)) 5),
            effects := effects example_state
              @ backoff_effects (request_body ''s'' (this example_state)) (pos example_state)
                  (backoffCounter example_state) ?seven\<rparr>)"
    using backoff_sequence [of example_state ?seven processResponse "''s''"] a b by blast
  have A: "sleeps (effects (snd (syncLoop processResponse ''s'' ?seven example_state)))
       = [100, 2000, 100, 4000, 100, 8000, 100, 16000, 100, 32000, 100, 32000, 100, 32000]"
    and B: "backoffCounter (snd (syncLoop processResponse ''s'' ?seven example_state)) = 5"
    unfolding run7 by (simp_all add: f st)
  have runm: "syncLoop processResponse ''s'' ?mixed ?s2 =
        (Continue,
         ?s2\<lparr>backoffCounter :=
              (if filter failed ?mixed = [] then backoffCounter ?s2
               else min (backoffCounter ?s2 + length (filter failed ?mixed)) 5),
            effects := effects ?s2
              @ backoff_effects (request_body ''s'' (this ?s2)) (pos ?s2)
                  (backoffCounter ?s2) ?mixed\<rparr>)"
    using backoff_sequence [of ?s2 ?mixed processResponse "''s''"] a c by blast
  have C: "sleeps (effects (snd (syncLoop processResponse ''s'' ?mixed ?s2)))
       = [100, 8000, 100, 100, 16000]"
    unfolding runm by (simp add: f st)
  have D: "sleeps (backoff_effects (request_body ''s'' example_engine) None 0 ?three)
       = [100, 2000, 100, 4000, 100, 8000]"
    using backoff_sequence [of _ ?three _ _ "request_body ''s'' example_engine" None] d
    by (simp add: upt_rec)
  have E: "backoffCounter (snd (syncLoop_body processResponse ''s'' (ok_event 1) ?s5)) = 0"
    using backoff_sequence [of ?s5 _ processResponse "''s''" _ _ _ _ _ "ok_event 1" ?resp H]
      r h st
    by simp
  have F: "backoffCounter (snd (syncLoop_body processResponse ''s'' (null_room_event 1) ?s5))
        = 1
      \<and> sleeps (effects (snd (syncLoop_body processResponse ''s'' (null_room_event 1) ?s5)))
        = [100, 2000]"
    using backoff_sequence [of ?s5 _ processResponse "''s''" _ _ _ _ _ "null_room_event 1"
        ?null "[example_map, example_map]" TypeError] rn t n st
    by simp
  from a(1) b A B c C d D e r h E rn t n F show ?thesis by blast
qed









text \<open>
  A call of \<open>stop()\<close> followed by \<open>start()\<close> while the loop is suspended sets the
  status back to \<open>InitialSync\<close>: the invocation that was suspended goes on, and
  attaches the sticky parameters again, after a request that omitted them.
\<close>

lemma sticky_after_restart:
  "map sticky_attached
     (requests_of_run processResponse ''s''
        [ok_event 1, (error_event ''AbortError'')\<lparr>in_flight := [Stop, Start]\<rparr>, ok_event 2]
        example_state)
   = [True, False, True]"
proof -
  have h: "\<exists>h'. processResponse t h \<lparr>resp_ops = [DELETE 7, INSERT 0 (mk_room ''g'')],
                                        resp_counts = [9], resp_pos = p\<rparr> = Some (Handled h')"
    for t h p
    by (rule processResponse_declared)
      (simp add: declared_def safe_range_def safe_field_def safe_index_def DELETE_def
        INSERT_def)
  obtain h1 where h1: "processResponse
      \<lparr>ranges = [[0, 5], [6, 8]], roomIndexToRoomId = 0, status = InitialSync\<rparr> [example_map]
      \<lparr>resp_ops = [DELETE 7, INSERT 0 (mk_room ''g'')], resp_counts = [9], resp_pos = 1\<rparr>
      = Some (Handled h1)"
    using h by blast
  obtain h2 where h2: "processResponse
      \<lparr>ranges = [[0, 5], [6, 8]], roomIndexToRoomId = 0, status = InitialSync\<rparr> h1
      \<lparr>resp_ops = [DELETE 7, INSERT 0 (mk_room ''g'')], resp_counts = [9], resp_pos = 2\<rparr>
      = Some (Handled h2)"
    using h by blast
  show ?thesis
    by (simp add: requests_of_run_def example_state_def error_event_def ok_event_def
        syncLoop_body_def issue_request_def catch_block_def do_effect_def h1 h2
        request_body_def sync3_list_def sticky_attached_def carries_sticky_def
        example_engine_def outside_def stop_def start_def Let_def)
qed



end
